theory Spec2Isabelle
  imports Main
begin

section \<open>Tokens\<close>

text \<open>
  \<^verbatim>\<open>Token\<close> is a dataclass with the fields \<^verbatim>\<open>type: str\<close>, \<^verbatim>\<open>val: Union[str, int]\<close>
  and \<^verbatim>\<open>loc: Optional[Tuple[int, int]] = None\<close>. Python's integers are unbounded,
  so they are \<open>int\<close>.
\<close>

datatype tokval = IntVal int | StrVal string

record token =
  type :: string
  val :: tokval
  loc :: "(int \<times> int) option"

definition Token :: "string \<Rightarrow> tokval \<Rightarrow> (int \<times> int) option \<Rightarrow> token" where
  "Token t v l = \<lparr>type = t, val = v, loc = l\<rparr>"

definition EOF_TOKEN :: token where
  "EOF_TOKEN = Token ''eof'' (StrVal ''eof'') None"

text \<open>\<^verbatim>\<open>str\<close> of a value and \<^verbatim>\<open>Token.__repr__\<close>, which the error messages format.\<close>

fun digits_of :: "nat \<Rightarrow> string" where
  "digits_of n =
     (if n < 10 then [char_of (48 + n)]
      else digits_of (n div 10) @ [char_of (48 + n mod 10)])"

declare digits_of.simps [simp del]

definition str_of_val :: "tokval \<Rightarrow> string" where
  "str_of_val v =
     (case v of
        StrVal s \<Rightarrow> s
      | IntVal i \<Rightarrow> (if i < 0 then ''-'' @ digits_of (nat (- i)) else digits_of (nat i)))"

definition repr_token :: "token \<Rightarrow> string" where
  "repr_token t = ''<Token '' @ type t @ '' '' @ str_of_val (val t) @ ''>''"

section \<open>The lexical grammar \<^verbatim>\<open>TOKEN_RE\<close>\<close>

text \<open>
  A source text is a list of code points. HOL's \<open>char\<close> has 256 values, so the model
  covers the texts whose code points are below 256; the classes below are the ones
  Python's \<^verbatim>\<open>re\<close> uses for a \<^verbatim>\<open>str\<close> pattern on that range: \<^verbatim>\<open>\s\<close> is
  \<^verbatim>\<open>str.isspace\<close>, \<^verbatim>\<open>\d\<close> is the decimal digits, \<^verbatim>\<open>\w\<close> is \<^verbatim>\<open>str.isalnum\<close> or
  the underscore.
\<close>

definition is_space :: "char \<Rightarrow> bool" where
  "is_space c =
     (let n = (of_char c :: nat)
      in (9 \<le> n \<and> n \<le> 13) \<or> (28 \<le> n \<and> n \<le> 32) \<or> n = 133 \<or> n = 160)"

definition is_digit :: "char \<Rightarrow> bool" where
  "is_digit c = (let n = (of_char c :: nat) in 48 \<le> n \<and> n \<le> 57)"

definition is_word :: "char \<Rightarrow> bool" where
  "is_word c =
     (let n = (of_char c :: nat)
      in (48 \<le> n \<and> n \<le> 57) \<or> (65 \<le> n \<and> n \<le> 90) \<or> n = 95 \<or> (97 \<le> n \<and> n \<le> 122)
         \<or> n = 170 \<or> n = 178 \<or> n = 179 \<or> n = 181 \<or> n = 185 \<or> n = 186
         \<or> (188 \<le> n \<and> n \<le> 190) \<or> (192 \<le> n \<and> n \<le> 214) \<or> (216 \<le> n \<and> n \<le> 246)
         \<or> 248 \<le> n)"

definition is_op :: "char \<Rightarrow> bool" where
  "is_op c = (c \<in> set ''-+*/%!~<>=&^|?:,'')"

definition is_bracket :: "char \<Rightarrow> bool" where
  "is_bracket c = (c \<in> set ''()[]'')"

text \<open>
  One match of \<^verbatim>\<open>TOKEN_RE\<close> is the tuple of its four groups, as \<^verbatim>\<open>findall\<close>
  returns it; a group that took no part in the match is the empty string.
\<close>

type_synonym item = "string \<times> string \<times> string \<times> string"

text \<open>
  The alternation \<^verbatim>\<open>(\d+) | (\w+) | ([\-\+\*/%!~<>=&^|?:,]+) | ([\(\)\[\]])\<close> at the
  head of the text: the alternatives are tried in this order, and a greedy \<^verbatim>\<open>+\<close>
  with nothing after it takes the whole run. The result is the groups and the rest of
  the text.
\<close>

definition match_alt :: "string \<Rightarrow> (item \<times> string) option" where
  "match_alt s =
     (case s of
        [] \<Rightarrow> None
      | c # cs \<Rightarrow>
          if is_digit c then Some ((takeWhile is_digit s, [], [], []), dropWhile is_digit s)
          else if is_word c then Some (([], takeWhile is_word s, [], []), dropWhile is_word s)
          else if is_op c then Some (([], [], takeWhile is_op s, []), dropWhile is_op s)
          else if is_bracket c then Some (([], [], [], [c]), cs)
          else None)"

text \<open>
  The whole pattern \<^verbatim>\<open>\s* (?: ... )\<close> at the head of the text. The greedy
  \<^verbatim>\<open>\s*\<close> first takes a white-space character and goes on; when the rest does not
  match, it backtracks and tries the alternation where it stands.
\<close>

fun match_re :: "string \<Rightarrow> (item \<times> string) option" where
  "match_re [] = match_alt []"
| "match_re (c # cs) =
     (if is_space c
      then (case match_re cs of Some r \<Rightarrow> Some r | None \<Rightarrow> match_alt (c # cs))
      else match_alt (c # cs))"

lemma match_alt_shorter: "match_alt s = Some (it, rest) \<Longrightarrow> length rest < length s"
proof (cases s)
  case Nil
  then show "match_alt s = Some (it, rest) \<Longrightarrow> length rest < length s"
    by (simp add: match_alt_def)
next
  case (Cons c cs)
  assume m: "match_alt s = Some (it, rest)"
  have d: "\<And>P. length (dropWhile P cs) < Suc (length cs)"
    by (simp add: le_imp_less_Suc length_dropWhile_le)
  from m Cons show "length rest < length s"
    by (auto simp: match_alt_def d split: if_splits)
qed

lemma match_re_shorter: "match_re s = Some (it, rest) \<Longrightarrow> length rest < length s"
proof (induction s)
  case Nil
  then show ?case by (simp add: match_alt_def)
next
  case (Cons c cs)
  then show ?case
    by (auto split: if_splits option.splits dest: match_alt_shorter)
qed

text \<open>
  \<^verbatim>\<open>TOKEN_RE.findall(s)\<close>: the matches are searched from left to right; after a match
  the search goes on where the match ended, and where the pattern does not match at a
  position the search moves one character on. No match of this pattern is empty.
\<close>

function findall :: "string \<Rightarrow> item list" where
  "findall s =
     (case match_re s of
        Some (it, rest) \<Rightarrow> it # findall rest
      | None \<Rightarrow> (case s of [] \<Rightarrow> [] | c # cs \<Rightarrow> findall cs))"
  by pat_completeness auto
termination
  by (relation "measure length") (auto dest: match_re_shorter)

declare findall.simps [simp del]

section \<open>The token stream\<close>

text \<open>
  What the code can raise: \<^verbatim>\<open>ParseError\<close> with its message, the \<^verbatim>\<open>StopIteration\<close>
  of an exhausted generator, and the \<^verbatim>\<open>UnboundLocalError\<close> of reading \<^verbatim>\<open>typ\<close>
  before any branch of \<^verbatim>\<open>_make_stream\<close> has assigned it.
\<close>

datatype exn = ParseError string | StopIteration | UnboundLocalError

text \<open>\<^verbatim>\<open>int(item[0])\<close> on a run of decimal digits.\<close>

definition int_of_digits :: "string \<Rightarrow> int" where
  "int_of_digits ds = foldl (\<lambda>a c. 10 * a + (int (of_char c) - 48)) 0 ds"

text \<open>
  The \<^verbatim>\<open>if\<close>/\<^verbatim>\<open>elif\<close> chain of \<^verbatim>\<open>_make_stream\<close> assigns the generator's local
  variables \<^verbatim>\<open>typ\<close> and \<^verbatim>\<open>val\<close>; when no branch is taken they keep what they had.
\<close>

definition assign :: "item \<Rightarrow> (string \<times> tokval) option \<Rightarrow> (string \<times> tokval) option" where
  "assign it old =
     (case it of (g0, g1, g2, g3) \<Rightarrow>
        if g0 \<noteq> [] then Some (''number'', IntVal (int_of_digits g0))
        else if g1 \<noteq> [] then Some (''name'', StrVal g1)
        else if g2 \<noteq> [] then Some (g2, StrVal g2)
        else if g3 \<noteq> [] then Some (g3, StrVal g3)
        else old)"

text \<open>
  The state of a \<^verbatim>\<open>TokenStream\<close>: the field \<^verbatim>\<open>current\<close> and the frame of the
  generator \<^verbatim>\<open>_stream\<close>, which is the matches its \<^verbatim>\<open>for\<close> loop has not visited yet,
  its local variables, and whether its last \<^verbatim>\<open>yield\<close> (the one after the loop) has
  been delivered.
\<close>

record stream =
  current :: token
  pending :: "item list"
  locals :: "(string \<times> tokval) option"
  exhausted :: bool

text \<open>
  \<^verbatim>\<open>next(token_stream)\<close>, that is \<^verbatim>\<open>__next__\<close>, resumes the generator: the value it
  yields or the exception it raises, and the state it leaves.
\<close>

definition advance :: "stream \<Rightarrow> (exn + token) \<times> stream" where
  "advance st =
     (if exhausted st then (Inl StopIteration, st)
      else
        (case pending st of
           [] \<Rightarrow> (Inr (current st), st\<lparr>current := EOF_TOKEN, exhausted := True\<rparr>)
         | it # rest \<Rightarrow>
             (case assign it (locals st) of
                None \<Rightarrow> (Inl UnboundLocalError, st\<lparr>pending := rest, exhausted := True\<rparr>)
              | Some (typ, v) \<Rightarrow>
                  (Inr (current st),
                   st\<lparr>current := Token typ v (Some (0, 0)), pending := rest,
                      locals := Some (typ, v)\<rparr>))))"

text \<open>
  The dataclass constructor sets \<^verbatim>\<open>s\<close> and the default \<^verbatim>\<open>current\<close>;
  \<^verbatim>\<open>__post_init__\<close> creates the generator and calls \<^verbatim>\<open>next\<close> once.
\<close>

definition new_stream :: "string \<Rightarrow> stream" where
  "new_stream s =
     \<lparr>current = Token ''<ERROR>'' (StrVal ''<ERROR>'') None, pending = findall s,
      locals = None, exhausted = False\<rparr>"

definition TokenStream :: "string \<Rightarrow> exn + stream" where
  "TokenStream s =
     (case advance (new_stream s) of
        (Inl e, st) \<Rightarrow> Inl e
      | (Inr before, st) \<Rightarrow> Inr st)"

text \<open>The state after \<open>k\<close> further calls of \<^verbatim>\<open>next\<close>, whatever each of them did.\<close>

fun nexts :: "nat \<Rightarrow> stream \<Rightarrow> stream" where
  "nexts 0 st = st"
| "nexts (Suc k) st = nexts k (snd (advance st))"

text \<open>
  The tokens \<open>t1 .. tn\<close> of a text: the values the loop of \<^verbatim>\<open>_make_stream\<close> stores
  in \<^verbatim>\<open>current\<close>, in order.
\<close>

fun convert :: "item list \<Rightarrow> (string \<times> tokval) option \<Rightarrow> token list" where
  "convert [] l = []"
| "convert (it # its) l =
     (case assign it l of
        None \<Rightarrow> []
      | Some (typ, v) \<Rightarrow> Token typ v (Some (0, 0)) # convert its (Some (typ, v)))"

definition tokens :: "string \<Rightarrow> token list" where
  "tokens s = convert (findall s) None"

text \<open>The number of calls of \<^verbatim>\<open>next\<close> that can still return a token.\<close>

definition remaining :: "stream \<Rightarrow> nat" where
  "remaining st = (if exhausted st then 0 else Suc (length (pending st)))"

section \<open>Syntax trees and the rule table\<close>

datatype node = Node token "node list"

text \<open>
  A call \<^verbatim>\<open>parse(rule_map, token_stream, rbp)\<close> mutates the stream and returns a node
  or raises: its result is the exception, or the node with the stream it leaves. A
  handler is a closure that may call \<^verbatim>\<open>parse\<close> again, so it takes that entry point as
  its first argument; \<open>None\<close> stands for a call that has not returned.
\<close>

type_synonym result = "exn + node \<times> stream"

type_synonym parser = "stream \<Rightarrow> int \<Rightarrow> result option"

type_synonym Nud = "parser \<Rightarrow> stream \<Rightarrow> int \<Rightarrow> result option"

type_synonym Led = "parser \<Rightarrow> stream \<Rightarrow> int \<Rightarrow> node \<Rightarrow> result option"

definition raise_null_error :: Nud where
  "raise_null_error p token_stream bp =
     Some (Inl (ParseError (repr_token (current token_stream)
                  @ '' can't be used in prefix position'')))"

definition raise_left_error :: Led where
  "raise_left_error p token_stream bp nd =
     Some (Inl (ParseError (repr_token (current token_stream)
                  @ '' can't be used in infix position'')))"

record rule_map =
  null_rules :: "string \<rightharpoonup> Nud \<times> int"
  left_rules :: "string \<rightharpoonup> Led \<times> int \<times> int"

definition empty_rule_map :: rule_map where
  "empty_rule_map = \<lparr>null_rules = Map.empty, left_rules = Map.empty\<rparr>"

text \<open>
  \<^verbatim>\<open>rule_map.register_null(bp, token_types)(f)\<close> and
  \<^verbatim>\<open>rule_map.register_left(bp, token_types, is_left_right_assoc)(f)\<close>: one step of
  each \<^verbatim>\<open>for\<close> loop, and the loop as a fold over the listed types.
\<close>

definition null_step :: "int \<Rightarrow> Nud \<Rightarrow> string \<Rightarrow> rule_map \<Rightarrow> rule_map" where
  "null_step bp f token_type rm =
     (let rm1 = rm\<lparr>null_rules := (null_rules rm)(token_type \<mapsto> (f, bp))\<rparr>
      in if left_rules rm1 token_type = None
         then rm1\<lparr>left_rules := (left_rules rm1)(token_type \<mapsto> (raise_left_error, 0, 0))\<rparr>
         else rm1)"

definition register_null :: "int \<Rightarrow> string list \<Rightarrow> Nud \<Rightarrow> rule_map \<Rightarrow> rule_map" where
  "register_null bp token_types f rm = fold (null_step bp f) token_types rm"

definition left_step :: "int \<Rightarrow> int \<Rightarrow> Led \<Rightarrow> string \<Rightarrow> rule_map \<Rightarrow> rule_map" where
  "left_step lbp rbp f token_type rm =
     (let rm1 = rm\<lparr>left_rules := (left_rules rm)(token_type \<mapsto> (f, lbp, rbp))\<rparr>
      in if null_rules rm1 token_type = None
         then rm1\<lparr>null_rules := (null_rules rm1)(token_type \<mapsto> (raise_null_error, 0))\<rparr>
         else rm1)"

definition register_left :: "int \<Rightarrow> string list \<Rightarrow> bool \<Rightarrow> Led \<Rightarrow> rule_map \<Rightarrow> rule_map" where
  "register_left bp token_types is_left_right_assoc f rm =
     (let lbp = bp;
          rbp = (if is_left_right_assoc then bp - 1 else bp)
      in fold (left_step lbp rbp f) token_types rm)"

text \<open>A grammar is a sequence of registrations on an empty table.\<close>

datatype registration =
  RegisterNull int "string list" Nud
| RegisterLeft int "string list" bool Led

fun register :: "registration \<Rightarrow> rule_map \<Rightarrow> rule_map" where
  "register (RegisterNull bp token_types f) rm = register_null bp token_types f rm"
| "register (RegisterLeft bp token_types a f) rm = register_left bp token_types a f rm"

definition build :: "registration list \<Rightarrow> rule_map" where
  "build regs = fold register regs empty_rule_map"

section \<open>\<^verbatim>\<open>eat\<close> and \<^verbatim>\<open>parse\<close>\<close>

definition eat :: "stream \<Rightarrow> string \<Rightarrow> exn + stream" where
  "eat token_stream token_type =
     (if token_type \<noteq> [] \<and> \<not> type (current token_stream) = token_type
      then Inl (ParseError (''expected '' @ token_type @ '', got ''
                  @ repr_token (current token_stream)))
      else (case advance token_stream of
              (Inl e, st) \<Rightarrow> Inl e
            | (Inr before, st) \<Rightarrow> Inr st))"

text \<open>
  The \<^verbatim>\<open>while True\<close> loop of \<^verbatim>\<open>parse\<close>, from the state in which \<^verbatim>\<open>node\<close> holds
  the left operand. The first argument bounds the number of iterations; \<open>p\<close> is the
  entry point the handlers call.
\<close>

fun parse_loop ::
  "nat \<Rightarrow> rule_map \<Rightarrow> parser \<Rightarrow> int \<Rightarrow> node \<Rightarrow> stream \<Rightarrow> result option" where
  "parse_loop 0 rule_map p rbp nd token_stream = None"
| "parse_loop (Suc n) rule_map p rbp nd token_stream =
     (case left_rules rule_map (type (current token_stream)) of
        None \<Rightarrow> Some (Inl (ParseError (''Unexpected token '' @ repr_token (current token_stream))))
      | Some (led, lbp', rbp') \<Rightarrow>
          if rbp \<ge> lbp' then Some (Inr (nd, token_stream))
          else
            (case led p token_stream rbp' nd of
               None \<Rightarrow> None
             | Some (Inl e) \<Rightarrow> Some (Inl e)
             | Some (Inr (nd', token_stream')) \<Rightarrow>
                 parse_loop n rule_map p rbp nd' token_stream'))"

text \<open>
  \<^verbatim>\<open>parse\<close>. The first argument bounds the depth of the calls of \<^verbatim>\<open>parse\<close> inside
  handlers and the iterations of each loop; a call that needs more is \<open>None\<close>.
\<close>

fun parse :: "nat \<Rightarrow> rule_map \<Rightarrow> stream \<Rightarrow> int \<Rightarrow> result option" where
  "parse 0 rule_map token_stream rbp = None"
| "parse (Suc n) rule_map token_stream rbp =
     (if type (current token_stream) = type EOF_TOKEN
      then Some (Inl (ParseError ''Unexpected end of input''))
      else
        (case null_rules rule_map (type (current token_stream)) of
           None \<Rightarrow> Some (Inl (ParseError (''Unexpected token '' @ repr_token (current token_stream))))
         | Some (nud, bp) \<Rightarrow>
             (case nud (parse n rule_map) token_stream bp of
                None \<Rightarrow> None
              | Some (Inl e) \<Rightarrow> Some (Inl e)
              | Some (Inr (nd, token_stream')) \<Rightarrow>
                  parse_loop n rule_map (parse n rule_map) rbp nd token_stream')))"

section \<open>Well-formed matches\<close>

text \<open>
  The shape of a match of \<^verbatim>\<open>TOKEN_RE\<close>: exactly one group took part in it, and it
  holds a non-empty run of its class (one character for a bracket).
\<close>

definition good_item :: "item \<Rightarrow> bool" where
  "good_item it =
     (case it of (g0, g1, g2, g3) \<Rightarrow>
        (g0 \<noteq> [] \<and> (\<forall>c \<in> set g0. is_digit c) \<and> g1 = [] \<and> g2 = [] \<and> g3 = [])
      \<or> (g0 = [] \<and> g1 \<noteq> [] \<and> (\<forall>c \<in> set g1. is_word c) \<and> g2 = [] \<and> g3 = [])
      \<or> (g0 = [] \<and> g1 = [] \<and> g2 \<noteq> [] \<and> (\<forall>c \<in> set g2. is_op c) \<and> g3 = [])
      \<or> (g0 = [] \<and> g1 = [] \<and> g2 = [] \<and> (\<exists>b. g3 = [b] \<and> is_bracket b)))"

section \<open>Notions the claims are stated with\<close>

text \<open>Python's \<^verbatim>\<open>sub in s\<close> on strings, as the tests use it on error messages.\<close>

fun str_contains :: "string \<Rightarrow> string \<Rightarrow> bool" where
  "str_contains sub [] = (sub = [])"
| "str_contains sub (c # cs) = (take (length sub) (c # cs) = sub \<or> str_contains sub cs)"

text \<open>
  The lexical grammar as equations on a tokenizer \<open>f\<close>: the empty text has no token;
  white space and a character of no class are skipped; where the text starts with a
  maximal run of decimal digits, of word characters that does not start with a digit,
  or of operator symbols, or with a bracket, the first token is that run and the rest
  are the tokens of what follows it.
\<close>

definition lexical_rules :: "(string \<Rightarrow> token list) \<Rightarrow> bool" where
  "lexical_rules f =
     (f [] = []
      \<and> (\<forall>c s. is_space c \<longrightarrow> f (c # s) = f s)
      \<and> (\<forall>c s. \<not> is_space c \<and> \<not> is_word c \<and> \<not> is_op c \<and> \<not> is_bracket c \<longrightarrow> f (c # s) = f s)
      \<and> (\<forall>ds s. ds \<noteq> [] \<and> (\<forall>c \<in> set ds. is_digit c) \<and> (s = [] \<or> \<not> is_digit (hd s)) \<longrightarrow>
            f (ds @ s) = Token ''number'' (IntVal (int_of_digits ds)) (Some (0, 0)) # f s)
      \<and> (\<forall>w s. w \<noteq> [] \<and> \<not> is_digit (hd w) \<and> (\<forall>c \<in> set w. is_word c)
              \<and> (s = [] \<or> \<not> is_word (hd s)) \<longrightarrow>
            f (w @ s) = Token ''name'' (StrVal w) (Some (0, 0)) # f s)
      \<and> (\<forall>ops s. ops \<noteq> [] \<and> (\<forall>c \<in> set ops. is_op c) \<and> (s = [] \<or> \<not> is_op (hd s)) \<longrightarrow>
            f (ops @ s) = Token ops (StrVal ops) (Some (0, 0)) # f s)
      \<and> (\<forall>b s. is_bracket b \<longrightarrow> f (b # s) = Token [b] (StrVal [b]) (Some (0, 0)) # f s))"

text \<open>The token types a registration lists for the prefix and for the infix mapping.\<close>

fun null_types :: "registration \<Rightarrow> string list" where
  "null_types (RegisterNull bp token_types f) = token_types"
| "null_types (RegisterLeft bp token_types a f) = []"

fun left_types :: "registration \<Rightarrow> string list" where
  "left_types (RegisterNull bp token_types f) = []"
| "left_types (RegisterLeft bp token_types a f) = token_types"

text \<open>
  A call has returned, and when it returned a node, the stream it leaves can yield
  fewer than \<open>k\<close> further tokens.
\<close>

definition returns_below :: "nat \<Rightarrow> result option \<Rightarrow> bool" where
  "returns_below k r =
     (case r of
        None \<Rightarrow> False
      | Some (Inl e) \<Rightarrow> True
      | Some (Inr (nd, token_stream')) \<Rightarrow> remaining token_stream' < k)"

text \<open>
  The entry point \<open>p\<close> returns on every stream shorter than \<open>k\<close>, and consumes at least
  one token whenever it returns a node.
\<close>

definition parser_below :: "nat \<Rightarrow> parser \<Rightarrow> bool" where
  "parser_below k p =
     (\<forall>token_stream bp. remaining token_stream < k \<longrightarrow>
        returns_below (remaining token_stream) (p token_stream bp))"

text \<open>
  A handler consumes at least one token per invocation: it calls \<^verbatim>\<open>parse\<close> only after
  it has consumed a token, so it returns as soon as those calls, on shorter streams,
  return; and when it returns a node it has consumed at least one token.
\<close>

definition consuming_nud :: "Nud \<Rightarrow> bool" where
  "consuming_nud h =
     (\<forall>p token_stream bp. parser_below (remaining token_stream) p \<longrightarrow>
        returns_below (remaining token_stream) (h p token_stream bp))"

definition consuming_led :: "Led \<Rightarrow> bool" where
  "consuming_led h =
     (\<forall>p token_stream bp nd. parser_below (remaining token_stream) p \<longrightarrow>
        returns_below (remaining token_stream) (h p token_stream bp nd))"

definition consuming_rules :: "rule_map \<Rightarrow> bool" where
  "consuming_rules rm =
     ((\<forall>t h bp. null_rules rm t = Some (h, bp) \<longrightarrow> consuming_nud h)
      \<and> (\<forall>t h lbp rbp. left_rules rm t = Some (h, lbp, rbp) \<longrightarrow> consuming_led h))"

section \<open>Handlers of a sample grammar\<close>

text \<open>
  Modelled from the spec: the grammar that registers handlers (\<^verbatim>\<open>arith_parse\<close>, which the
  tests import) is not among the sources. The spec describes a prefix handler that
  consumes \<^verbatim>\<open>current\<close> and returns a literal node for a number or a name.
\<close>

definition null_constant :: Nud where
  "null_constant p token_stream bp =
     (case advance token_stream of
        (Inl e, st) \<Rightarrow> Some (Inl e)
      | (Inr tok, st) \<Rightarrow> Some (Inr (Node tok [], st)))"

text \<open>
  Modelled from the spec: an infix handler that consumes the operator token, calls
  \<^verbatim>\<open>parse(rule_table, token_stream, right_bp)\<close> for its right-hand operand and returns a
  new node of the operator with the two operands.
\<close>

definition left_binary_op :: Led where
  "left_binary_op p token_stream rbp left =
     (case advance token_stream of
        (Inl e, st) \<Rightarrow> Some (Inl e)
      | (Inr tok, st) \<Rightarrow>
          (case p st rbp of
             None \<Rightarrow> None
           | Some (Inl e) \<Rightarrow> Some (Inl e)
           | Some (Inr (right, st')) \<Rightarrow> Some (Inr (Node tok [left, right], st'))))"

text \<open>
  The sample grammar: numbers and names in prefix position, \<^verbatim>\<open>+\<close> and \<^verbatim>\<open>%\<close> as
  left-associative infix operators, \<^verbatim>\<open>**\<close> as a right-associative one, and the end
  of the input as a token that cannot start an expression.
\<close>

definition sample_rules :: rule_map where
  "sample_rules =
     build [RegisterNull (- 1) [''name'', ''number''] null_constant,
            RegisterLeft 25 [''+''] False left_binary_op,
            RegisterLeft 27 [''%''] False left_binary_op,
            RegisterLeft 29 [''**''] True left_binary_op,
            RegisterNull (- 1) [''eof''] raise_null_error]"

text \<open>A registration whose handler consumes at least one token per invocation.\<close>

fun consuming_registration :: "registration \<Rightarrow> bool" where
  "consuming_registration (RegisterNull bp token_types f) = consuming_nud f"
| "consuming_registration (RegisterLeft bp token_types a f) = consuming_led f"

section \<open>Sample streams and tables\<close>

text \<open>
  The states of the stream of the text \<^verbatim>\<open>1+2\<close>: as built, after the number, and at
  the end of the input.
\<close>

definition one_plus_two :: stream where
  "one_plus_two =
     \<lparr>current = Token ''number'' (IntVal 1) (Some (0, 0)),
      pending = [([], [], ''+'', []), (''2'', [], [], [])],
      locals = Some (''number'', IntVal 1), exhausted = False\<rparr>"

definition plus_two :: stream where
  "plus_two =
     \<lparr>current = Token ''+'' (StrVal ''+'') (Some (0, 0)),
      pending = [(''2'', [], [], [])],
      locals = Some (''+'', StrVal ''+''), exhausted = False\<rparr>"

definition at_end :: stream where
  "at_end =
     \<lparr>current = EOF_TOKEN, pending = [], locals = Some (''number'', IntVal 2),
      exhausted = True\<rparr>"

text \<open>
  The stream of \<^verbatim>\<open>1 x\<close> after the number and as built; a table with numbers only,
  and the stream of the text \<^verbatim>\<open>1\<close> as built and after the number.
\<close>

definition one_x :: stream where
  "one_x =
     \<lparr>current = Token ''name'' (StrVal ''x'') (Some (0, 0)), pending = [],
      locals = Some (''name'', StrVal ''x''), exhausted = False\<rparr>"

definition one_then_x :: stream where
  "one_then_x =
     \<lparr>current = Token ''number'' (IntVal 1) (Some (0, 0)), pending = [([], ''x'', [], [])],
      locals = Some (''number'', IntVal 1), exhausted = False\<rparr>"

definition number_rules :: rule_map where
  "number_rules = build [RegisterNull (- 1) [''number''] null_constant]"

definition one :: stream where
  "one =
     \<lparr>current = Token ''number'' (IntVal 1) (Some (0, 0)), pending = [],
      locals = Some (''number'', IntVal 1), exhausted = False\<rparr>"

definition after_one :: stream where
  "after_one =
     \<lparr>current = EOF_TOKEN, pending = [], locals = Some (''number'', IntVal 1),
      exhausted = True\<rparr>"

section \<open>Properties of the tokenizer\<close>

lemma space_not_token:
  "is_space c \<Longrightarrow> \<not> is_digit c \<and> \<not> is_word c \<and> \<not> is_op c \<and> \<not> is_bracket c"
  by (auto simp: is_space_def is_digit_def is_word_def is_op_def is_bracket_def Let_def)

lemma digit_is_word: "is_digit c \<Longrightarrow> is_word c"
  by (simp add: is_digit_def is_word_def Let_def)

lemma op_not_word: "is_op c \<Longrightarrow> \<not> is_word c \<and> \<not> is_bracket c"
  by (auto simp: is_word_def is_op_def is_bracket_def Let_def)

lemma bracket_not_word: "is_bracket c \<Longrightarrow> \<not> is_word c \<and> \<not> is_op c"
  by (auto simp: is_word_def is_op_def is_bracket_def Let_def)

lemma match_alt_space: "is_space c \<Longrightarrow> match_alt (c # cs) = None"
  by (simp add: match_alt_def space_not_token)

lemma match_re_greedy: "match_re s = match_alt (dropWhile is_space s)"
proof (induction s)
  case Nil
  show ?case by simp
next
  case (Cons c cs)
  show ?case
  proof (cases "is_space c")
    case True
    with Cons show ?thesis
      by (cases "match_alt (dropWhile is_space cs)") (simp_all add: match_alt_space)
  next
    case False
    then show ?thesis by simp
  qed
qed

lemma findall_space: "is_space c \<Longrightarrow> findall (c # cs) = findall cs"
proof -
  assume sp: "is_space c"
  then have m: "match_re (c # cs) = match_re cs"
    by (simp add: match_re_greedy)
  show ?thesis
  proof (cases "match_re cs")
    case None
    with m show ?thesis
      by (subst findall.simps) simp
  next
    case (Some r)
    with m show ?thesis
      by (subst findall.simps, subst (2) findall.simps) simp
  qed
qed

lemma findall_spaces: "\<forall>c \<in> set ws. is_space c \<Longrightarrow> findall (ws @ s) = findall s"
  by (induction ws) (simp_all add: findall_space)

lemma findall_unmatched:
  "\<not> is_space c \<Longrightarrow> \<not> is_word c \<Longrightarrow> \<not> is_op c \<Longrightarrow> \<not> is_bracket c \<Longrightarrow>
   findall (c # cs) = findall cs"
  using digit_is_word [of c]
  by (subst findall.simps) (auto simp: match_alt_def)

lemma takeWhile_run:
  "\<forall>c \<in> set xs. P c \<Longrightarrow> rest = [] \<or> \<not> P (hd rest) \<Longrightarrow>
   takeWhile P (xs @ rest) = xs \<and> dropWhile P (xs @ rest) = rest"
  by (cases rest) (simp_all add: takeWhile_append2 dropWhile_append2)

lemma findall_number:
  assumes "ds \<noteq> []" "\<forall>c \<in> set ds. is_digit c" "rest = [] \<or> \<not> is_digit (hd rest)"
  shows "findall (ds @ rest) = (ds, [], [], []) # findall rest"
proof -
  obtain d ds' where ds: "ds = d # ds'" using assms(1) by (cases ds) auto
  have d: "is_digit d" using assms(2) ds by simp
  then have ns: "\<not> is_space d" using space_not_token by blast
  have run: "takeWhile is_digit (ds @ rest) = ds \<and> dropWhile is_digit (ds @ rest) = rest"
    using assms(2,3) by (rule takeWhile_run)
  have "match_re (ds @ rest) = match_alt (ds @ rest)"
    using ns ds by simp
  also have "\<dots> = Some ((takeWhile is_digit (ds @ rest), [], [], []), dropWhile is_digit (ds @ rest))"
    using d ds by (simp add: match_alt_def)
  finally have "match_re (ds @ rest) = Some ((ds, [], [], []), rest)"
    using run by simp
  then show ?thesis
    by (subst findall.simps) simp
qed

lemma findall_name:
  assumes "w \<noteq> []" "\<not> is_digit (hd w)" "\<forall>c \<in> set w. is_word c"
    "rest = [] \<or> \<not> is_word (hd rest)"
  shows "findall (w @ rest) = ([], w, [], []) # findall rest"
proof -
  obtain d w' where w: "w = d # w'" using assms(1) by (cases w) auto
  have d: "is_word d" "\<not> is_digit d" using assms(2,3) w by simp_all
  then have ns: "\<not> is_space d" using space_not_token by blast
  have run: "takeWhile is_word (w @ rest) = w \<and> dropWhile is_word (w @ rest) = rest"
    using assms(3,4) by (rule takeWhile_run)
  have "match_re (w @ rest) = match_alt (w @ rest)"
    using ns w by simp
  also have "\<dots> = Some (([], takeWhile is_word (w @ rest), [], []), dropWhile is_word (w @ rest))"
    using d w by (simp add: match_alt_def)
  finally have "match_re (w @ rest) = Some (([], w, [], []), rest)"
    using run by simp
  then show ?thesis
    by (subst findall.simps) simp
qed

lemma findall_operator:
  assumes "os \<noteq> []" "\<forall>c \<in> set os. is_op c" "rest = [] \<or> \<not> is_op (hd rest)"
  shows "findall (os @ rest) = ([], [], os, []) # findall rest"
proof -
  obtain d os' where os: "os = d # os'" using assms(1) by (cases os) auto
  have d: "is_op d" using assms(2) os by simp
  then have ns: "\<not> is_space d" "\<not> is_word d" "\<not> is_digit d"
    using space_not_token op_not_word digit_is_word by blast+
  have run: "takeWhile is_op (os @ rest) = os \<and> dropWhile is_op (os @ rest) = rest"
    using assms(2,3) by (rule takeWhile_run)
  have "match_re (os @ rest) = match_alt (os @ rest)"
    using ns os by simp
  also have "\<dots> = Some (([], [], takeWhile is_op (os @ rest), []), dropWhile is_op (os @ rest))"
    using d ns os by (simp add: match_alt_def)
  finally have "match_re (os @ rest) = Some (([], [], os, []), rest)"
    using run by simp
  then show ?thesis
    by (subst findall.simps) simp
qed

lemma findall_bracket:
  assumes "is_bracket b"
  shows "findall (b # rest) = ([], [], [], [b]) # findall rest"
proof -
  have ns: "\<not> is_space b" "\<not> is_word b" "\<not> is_digit b" "\<not> is_op b"
    using assms space_not_token bracket_not_word digit_is_word by blast+
  then have "match_re (b # rest) = Some (([], [], [], [b]), rest)"
    using assms by (simp add: match_alt_def)
  then show ?thesis
    by (subst findall.simps) simp
qed

lemma takeWhile_all: "\<forall>c \<in> set (takeWhile P xs). P c"
  by (auto dest: set_takeWhileD)

lemma match_alt_good: "match_alt s = Some (it, rest) \<Longrightarrow> good_item it"
proof (cases s)
  case Nil
  then show "match_alt s = Some (it, rest) \<Longrightarrow> good_item it"
    by (simp add: match_alt_def)
next
  case (Cons c cs)
  assume m: "match_alt s = Some (it, rest)"
  have t: "\<And>P. P c \<Longrightarrow> takeWhile P (c # cs) \<noteq> []" by simp
  consider (d) "is_digit c" | (w) "\<not> is_digit c" "is_word c"
    | (o) "\<not> is_digit c" "\<not> is_word c" "is_op c"
    | (b) "\<not> is_digit c" "\<not> is_word c" "\<not> is_op c" "is_bracket c"
    | (n) "\<not> is_digit c" "\<not> is_word c" "\<not> is_op c" "\<not> is_bracket c"
    by blast
  then show "good_item it"
  proof cases
    case d
    with m Cons have "it = (takeWhile is_digit (c # cs), [], [], [])"
      by (simp add: match_alt_def)
    with t [of is_digit, OF d] takeWhile_all [of is_digit "c # cs"] show ?thesis
      by (simp add: good_item_def del: takeWhile.simps)
  next
    case w
    with m Cons have "it = ([], takeWhile is_word (c # cs), [], [])"
      by (simp add: match_alt_def)
    with t [of is_word, OF w(2)] takeWhile_all [of is_word "c # cs"] show ?thesis
      by (simp add: good_item_def del: takeWhile.simps)
  next
    case o
    with m Cons have "it = ([], [], takeWhile is_op (c # cs), [])"
      by (simp add: match_alt_def)
    with t [of is_op, OF o(3)] takeWhile_all [of is_op "c # cs"] show ?thesis
      by (simp add: good_item_def del: takeWhile.simps)
  next
    case b
    with m Cons have "it = ([], [], [], [c])"
      by (simp add: match_alt_def)
    with b show ?thesis
      by (simp add: good_item_def)
  next
    case n
    with m Cons show ?thesis
      by (simp add: match_alt_def)
  qed
qed

lemma match_re_good: "match_re s = Some (it, rest) \<Longrightarrow> good_item it"
  by (simp add: match_re_greedy match_alt_good)

lemma findall_good: "list_all good_item (findall s)"
proof (induction s rule: findall.induct)
  case (1 s)
  show ?case
  proof (cases "match_re s")
    case None
    show ?thesis
    proof (cases s)
      case Nil
      with None show ?thesis by (subst findall.simps) simp
    next
      case (Cons c cs)
      from "1.IH"(1) [OF None Cons] have "list_all good_item (findall cs)" .
      with None Cons show ?thesis by (subst findall.simps) simp
    qed
  next
    case (Some r)
    obtain it rest where r: "r = (it, rest)" by (cases r)
    from "1.IH"(2) [OF Some [unfolded r] refl] have "list_all good_item (findall rest)" .
    with Some r show ?thesis
      by (subst findall.simps) (simp add: match_re_good)
  qed
qed

lemma assign_good: "good_item it \<Longrightarrow> assign it l = assign it None \<and> assign it None \<noteq> None"
proof -
  assume g: "good_item it"
  obtain g0 g1 g2 g3 where it: "it = (g0, g1, g2, g3)" by (cases it)
  from g it show ?thesis
    unfolding good_item_def assign_def by (simp, elim disjE exE conjE) simp_all
qed

lemma op_not_eof: "\<forall>c \<in> set g. is_op c \<Longrightarrow> g \<noteq> ''eof''"
proof
  assume a: "\<forall>c \<in> set g. is_op c" and "g = ''eof''"
  then have "is_op CHR ''e''" by simp
  then show False by (simp add: is_op_def)
qed

lemma bracket_not_eof: "is_bracket b \<Longrightarrow> [b] \<noteq> ''eof''"
  by simp

lemma assign_type:
  "good_item it \<Longrightarrow> assign it l = Some (typ, v) \<Longrightarrow> typ \<noteq> ''eof''"
proof -
  assume g: "good_item it" and a: "assign it l = Some (typ, v)"
  obtain g0 g1 g2 g3 where it: "it = (g0, g1, g2, g3)" by (cases it)
  from g it consider
      (d) "g0 \<noteq> []"
    | (w) "g0 = []" "g1 \<noteq> []"
    | (o) "g0 = []" "g1 = []" "g2 \<noteq> []" "\<forall>c \<in> set g2. is_op c"
    | (b) b where "g0 = []" "g1 = []" "g2 = []" "g3 = [b]"
    unfolding good_item_def by (simp, elim disjE exE conjE) blast+
  then show ?thesis
  proof cases
    case d
    with a it show ?thesis by (auto simp: assign_def)
  next
    case w
    with a it show ?thesis by (auto simp: assign_def)
  next
    case o
    with a it have "typ = g2" by (simp add: assign_def)
    with o(4) op_not_eof show ?thesis by blast
  next
    case b
    with a it have "typ = [b]" by (simp add: assign_def)
    then show ?thesis by simp
  qed
qed

lemma convert_length: "list_all good_item its \<Longrightarrow> length (convert its l) = length its"
proof (induction its arbitrary: l)
  case Nil
  show ?case by simp
next
  case (Cons it its)
  then have g: "good_item it" and gs: "list_all good_item its" by simp_all
  from assign_good [OF g, of l] obtain ty v where a: "assign it l = Some (ty, v)"
    by (cases "assign it None") auto
  from Cons.IH [OF gs, of "Some (ty, v)"] a show ?case by simp
qed

lemma convert_locals: "list_all good_item its \<Longrightarrow> convert its l = convert its None"
proof (cases its)
  case Nil
  then show ?thesis by simp
next
  case (Cons it its')
  assume "list_all good_item its"
  with Cons have "good_item it" by simp
  from assign_good [OF this, of l] Cons show ?thesis by simp
qed

lemma convert_tokens:
  "list_all good_item its \<Longrightarrow> t \<in> set (convert its l) \<Longrightarrow>
   type t \<noteq> ''eof'' \<and> loc t = Some (0, 0)"
proof (induction its arbitrary: l)
  case Nil
  then show ?case by simp
next
  case (Cons it its)
  then have g: "good_item it" and gs: "list_all good_item its" by simp_all
  from assign_good [OF g, of l] obtain ty v where
    a: "assign it l = Some (ty, v)"
    by (cases "assign it None") auto
  from Cons.prems(2) a have "t = Token ty v (Some (0, 0)) \<or> t \<in> set (convert its (Some (ty, v)))"
    by simp
  then show ?case
  proof
    assume "t = Token ty v (Some (0, 0))"
    with assign_type [OF g a] show ?thesis by (simp add: Token_def)
  next
    assume "t \<in> set (convert its (Some (ty, v)))"
    with Cons.IH [OF gs] show ?thesis by blast
  qed
qed

section \<open>Properties of the token stream\<close>

lemma advance_exhausted: "exhausted st \<Longrightarrow> advance st = (Inl StopIteration, st)"
  by (simp add: advance_def)

lemma nexts_exhausted: "exhausted st \<Longrightarrow> nexts k st = st"
  by (induction k) (simp_all add: advance_exhausted)

lemma advance_last:
  "\<not> exhausted st \<Longrightarrow> pending st = [] \<Longrightarrow>
   advance st = (Inr (current st), st\<lparr>current := EOF_TOKEN, exhausted := True\<rparr>)"
  by (simp add: advance_def)

lemma advance_item:
  assumes "\<not> exhausted st" "pending st = it # rest" "good_item it"
  shows "\<exists>ty v. assign it (locals st) = Some (ty, v)
           \<and> advance st = (Inr (current st),
                 st\<lparr>current := Token ty v (Some (0, 0)), pending := rest,
                    locals := Some (ty, v)\<rparr>)"
proof -
  from assign_good [OF assms(3), of "locals st"] obtain ty v
    where a: "assign it (locals st) = Some (ty, v)"
    by (cases "assign it None") auto
  with assms(1,2) show ?thesis by (simp add: advance_def)
qed

lemma advance_live:
  "\<not> exhausted st \<Longrightarrow> list_all good_item (pending st) \<Longrightarrow> fst (advance st) = Inr (current st)"
proof (cases "pending st")
  case Nil
  assume "\<not> exhausted st"
  with Nil show ?thesis by (simp add: advance_last)
next
  case (Cons it rest)
  assume "\<not> exhausted st" "list_all good_item (pending st)"
  with Cons advance_item [of st it rest] show ?thesis by auto
qed

lemma stream_run:
  assumes "\<not> exhausted st" "list_all good_item (pending st)"
  shows "current (nexts k (snd (advance st)))
           = (if k < length (pending st) then convert (pending st) (locals st) ! k else EOF_TOKEN)
         \<and> exhausted (nexts k (snd (advance st))) = (length (pending st) \<le> k)
         \<and> list_all good_item (pending (nexts k (snd (advance st))))"
  using assms
proof (induction k arbitrary: st)
  case 0
  show ?case
  proof (cases "pending st")
    case Nil
    with 0 show ?thesis by (simp add: advance_last)
  next
    case (Cons it rest)
    with 0 have g: "good_item it" and gs: "list_all good_item rest" by simp_all
    from advance_item [OF "0.prems"(1) Cons g] obtain ty v where
      a: "assign it (locals st) = Some (ty, v)"
      and b: "advance st = (Inr (current st),
                 st\<lparr>current := Token ty v (Some (0, 0)), pending := rest,
                    locals := Some (ty, v)\<rparr>)"
      by blast
    from a b Cons gs "0.prems"(1) show ?thesis by simp
  qed
next
  case (Suc k)
  show ?case
  proof (cases "pending st")
    case Nil
    with Suc.prems have "advance st = (Inr (current st), st\<lparr>current := EOF_TOKEN, exhausted := True\<rparr>)"
      by (simp add: advance_last)
    moreover have "nexts (Suc k) (st\<lparr>current := EOF_TOKEN, exhausted := True\<rparr>)
                     = st\<lparr>current := EOF_TOKEN, exhausted := True\<rparr>"
      by (rule nexts_exhausted) simp
    ultimately show ?thesis using Nil by simp
  next
    case (Cons it rest)
    with Suc.prems have g: "good_item it" and gs: "list_all good_item rest" by simp_all
    from advance_item [OF Suc.prems(1) Cons g] obtain ty v where
      a: "assign it (locals st) = Some (ty, v)"
      and b: "advance st = (Inr (current st),
                 st\<lparr>current := Token ty v (Some (0, 0)), pending := rest,
                    locals := Some (ty, v)\<rparr>)"
      by blast
    define st1 where "st1 = st\<lparr>current := Token ty v (Some (0, 0)), pending := rest,
                    locals := Some (ty, v)\<rparr>"
    have l: "\<not> exhausted st1" "list_all good_item (pending st1)"
      "pending st1 = rest" "locals st1 = Some (ty, v)"
      using Suc.prems(1) gs by (simp_all add: st1_def)
    from Suc.IH [OF l(1,2)] l(3,4)
    have ih: "current (nexts k (snd (advance st1)))
                = (if k < length rest then convert rest (Some (ty, v)) ! k else EOF_TOKEN)"
      "exhausted (nexts k (snd (advance st1))) = (length rest \<le> k)"
      "list_all good_item (pending (nexts k (snd (advance st1))))"
      by simp_all
    have n: "nexts (Suc k) (snd (advance st)) = nexts k (snd (advance st1))"
      using b by (simp add: st1_def)
    from ih n a Cons show ?thesis by simp
  qed
qed

lemma new_stream_live:
  "\<not> exhausted (new_stream s)" "list_all good_item (pending (new_stream s))"
  "pending (new_stream s) = findall s" "locals (new_stream s) = None"
  by (simp_all add: new_stream_def findall_good)

lemma TokenStream_Inr: "TokenStream s = Inr (snd (advance (new_stream s)))"
  using advance_live [OF new_stream_live(1,2), of s]
  by (cases "advance (new_stream s)") (simp add: TokenStream_def)

lemma tokens_length: "length (tokens s) = length (findall s)"
  by (simp add: tokens_def convert_length findall_good)

lemma tokens_not_eof: "t \<in> set (tokens s) \<Longrightarrow> t \<noteq> EOF_TOKEN \<and> type t \<noteq> type EOF_TOKEN"
  using convert_tokens [OF findall_good, of t s None]
  by (auto simp: tokens_def EOF_TOKEN_def Token_def)

lemma stream_current:
  "current (nexts k (snd (advance (new_stream s))))
     = (if k < length (tokens s) then tokens s ! k else EOF_TOKEN)"
  using stream_run [OF new_stream_live(1,2), of k s]
  by (simp add: new_stream_live(3,4) tokens_def convert_length findall_good)

lemma stream_exhausted:
  "exhausted (nexts k (snd (advance (new_stream s)))) = (length (tokens s) \<le> k)"
  using stream_run [OF new_stream_live(1,2), of k s]
  by (simp add: new_stream_live(3) tokens_length)

lemma stream_good:
  "list_all good_item (pending (nexts k (snd (advance (new_stream s)))))"
  using stream_run [OF new_stream_live(1,2), of k s] by simp

lemma stream_eof_iff:
  "current (nexts k (snd (advance (new_stream s)))) = EOF_TOKEN \<longleftrightarrow> length (tokens s) \<le> k"
proof (cases "k < length (tokens s)")
  case True
  then have "tokens s ! k \<in> set (tokens s)" by simp
  from tokens_not_eof [OF this] True show ?thesis by (simp add: stream_current)
next
  case False
  then show ?thesis by (simp add: stream_current)
qed

lemma stream_type_eof_iff:
  "type (current (nexts k (snd (advance (new_stream s))))) = type EOF_TOKEN
     \<longleftrightarrow> length (tokens s) \<le> k"
proof (cases "k < length (tokens s)")
  case True
  then have "tokens s ! k \<in> set (tokens s)" by simp
  from tokens_not_eof [OF this] True show ?thesis by (simp add: stream_current)
next
  case False
  then show ?thesis by (simp add: stream_current)
qed

lemma stream_advance:
  "fst (advance (nexts k (snd (advance (new_stream s)))))
     = (if k < length (tokens s) then Inr (tokens s ! k) else Inl StopIteration)"
proof (cases "k < length (tokens s)")
  case True
  then have "\<not> exhausted (nexts k (snd (advance (new_stream s))))"
    by (simp add: stream_exhausted)
  from advance_live [OF this stream_good] True show ?thesis
    by (simp add: stream_current)
next
  case False
  then have "exhausted (nexts k (snd (advance (new_stream s))))"
    by (simp add: stream_exhausted)
  from advance_exhausted [OF this] False show ?thesis by simp
qed

section \<open>Unmatched characters and decimal values\<close>

lemma run_before_other:
  "\<not> P c \<Longrightarrow> takeWhile P (x @ c # s) = takeWhile P x
     \<and> dropWhile P (x @ c # s) = dropWhile P x @ c # s"
  by (induction x) simp_all

lemma match_alt_before_unmatched:
  assumes "\<not> is_word c" "\<not> is_op c" "\<not> is_bracket c"
  shows "match_alt (x @ c # s)
           = (case match_alt x of None \<Rightarrow> None | Some (it, r) \<Rightarrow> Some (it, r @ c # s))"
proof (cases x)
  case Nil
  with assms digit_is_word [of c] show ?thesis by (auto simp: match_alt_def)
next
  case (Cons a as)
  have d: "\<not> is_digit c" using assms(1) digit_is_word by blast
  note r = run_before_other [of is_digit c "a # as" s, OF d]
    run_before_other [of is_word c "a # as" s, OF assms(1)]
    run_before_other [of is_op c "a # as" s, OF assms(2)]
  show ?thesis
    unfolding Cons match_alt_def using r by (simp del: takeWhile.simps dropWhile.simps)
qed

lemma match_re_before_unmatched:
  assumes "\<not> is_space c" "\<not> is_word c" "\<not> is_op c" "\<not> is_bracket c"
  shows "match_re (x @ c # s)
           = (case match_re x of None \<Rightarrow> None | Some (it, r) \<Rightarrow> Some (it, r @ c # s))"
  using run_before_other [of is_space c x s, OF assms(1)]
    match_alt_before_unmatched [OF assms(2,3,4)]
  by (simp add: match_re_greedy)

lemma findall_before_unmatched:
  assumes "\<not> is_space c" "\<not> is_word c" "\<not> is_op c" "\<not> is_bracket c"
  shows "findall (x @ c # s) = findall x @ findall s"
proof (induction x rule: findall.induct)
  case (1 x)
  note m = match_re_before_unmatched [OF assms, of x s]
  show ?case
  proof (cases "match_re x")
    case None
    show ?thesis
    proof (cases x)
      case Nil
      have "findall [] = []" by (subst findall.simps) (simp add: match_alt_def)
      with Nil assms show ?thesis by (simp add: findall_unmatched)
    next
      case (Cons a as)
      from "1.IH"(1) [OF None Cons] have ih: "findall (as @ c # s) = findall as @ findall s" .
      have l: "findall ((a # as) @ c # s) = findall (as @ c # s)"
        using m None Cons by (subst findall.simps) simp
      have r: "findall (a # as) = findall as"
        using None Cons by (subst findall.simps) simp
      from l r ih Cons show ?thesis by simp
    qed
  next
    case (Some p)
    obtain it r where p: "p = (it, r)" by (cases p)
    from "1.IH"(2) [OF Some [unfolded p] refl]
    have ih: "findall (r @ c # s) = findall r @ findall s" .
    have l: "findall (x @ c # s) = it # findall (r @ c # s)"
      using m Some p by (subst findall.simps) simp
    have r: "findall x = it # findall r"
      using Some p by (subst findall.simps) simp
    from l r ih show ?thesis by simp
  qed
qed

lemma convert_append:
  "list_all good_item xs \<Longrightarrow> list_all good_item ys \<Longrightarrow>
   convert (xs @ ys) l = convert xs l @ convert ys None"
proof (induction xs arbitrary: l)
  case Nil
  then show ?case using convert_locals [of ys l] by simp
next
  case (Cons it xs)
  then have g: "good_item it" and gs: "list_all good_item xs" by simp_all
  from assign_good [OF g, of l] obtain ty v where a: "assign it l = Some (ty, v)"
    by (cases "assign it None") auto
  from Cons.IH [OF gs Cons.prems(2), of "Some (ty, v)"] a show ?case by simp
qed

lemma tokens_Cons:
  "findall s = it # findall rest \<Longrightarrow> assign it None = Some (ty, v) \<Longrightarrow>
   tokens s = Token ty v (Some (0, 0)) # tokens rest"
  using convert_locals [OF findall_good, of rest "Some (ty, v)"]
  by (simp add: tokens_def)

lemma of_char_digit: "d < 10 \<Longrightarrow> int (of_char (char_of (48 + d) :: char)) - 48 = int d"
proof -
  assume "d < 10"
  then have "(48 + d) mod 256 = 48 + d" by simp
  then show ?thesis by simp
qed

lemma int_of_digits_snoc:
  "int_of_digits (ds @ [d]) = 10 * int_of_digits ds + (int (of_char d) - 48)"
  by (simp add: int_of_digits_def)

lemma int_of_digits_of: "int_of_digits (digits_of n) = int n"
proof (induction n rule: digits_of.induct)
  case (1 n)
  show ?case
  proof (cases "n < 10")
    case True
    then show ?thesis
      using of_char_digit [OF True]
      by (subst digits_of.simps) (simp add: int_of_digits_def)
  next
    case False
    have "n mod 10 < 10" by simp
    moreover have "10 * int (n div 10) + int (n mod 10) = int n" by presburger
    ultimately show ?thesis
      using of_char_digit [of "n mod 10"] "1.IH" [OF False] False
      by (subst digits_of.simps) (simp add: int_of_digits_snoc)
  qed
qed

section \<open>The tokenizer claims\<close>

lemma findall_Nil: "findall [] = []"
  by (subst findall.simps) (simp add: match_alt_def)

lemma tokens_Nil: "tokens [] = []"
  by (simp add: tokens_def findall_Nil)

lemma tokens_space: "is_space c \<Longrightarrow> tokens (c # s) = tokens s"
  by (simp add: tokens_def findall_space)

lemma tokens_unmatched:
  "\<not> is_space c \<Longrightarrow> \<not> is_word c \<Longrightarrow> \<not> is_op c \<Longrightarrow> \<not> is_bracket c \<Longrightarrow>
   tokens (c # s) = tokens s"
  by (simp add: tokens_def findall_unmatched)

lemma tokens_number:
  assumes "ds \<noteq> []" "\<forall>c \<in> set ds. is_digit c" "s = [] \<or> \<not> is_digit (hd s)"
  shows "tokens (ds @ s) = Token ''number'' (IntVal (int_of_digits ds)) (Some (0, 0)) # tokens s"
proof -
  have "findall (ds @ s) = (ds, [], [], []) # findall s"
    using assms by (rule findall_number)
  moreover have "assign (ds, [], [], []) None = Some (''number'', IntVal (int_of_digits ds))"
    using assms(1) by (simp add: assign_def)
  ultimately show ?thesis by (rule tokens_Cons)
qed

lemma tokens_name:
  assumes "w \<noteq> []" "\<not> is_digit (hd w)" "\<forall>c \<in> set w. is_word c" "s = [] \<or> \<not> is_word (hd s)"
  shows "tokens (w @ s) = Token ''name'' (StrVal w) (Some (0, 0)) # tokens s"
proof -
  have "findall (w @ s) = ([], w, [], []) # findall s"
    using assms by (rule findall_name)
  moreover have "assign ([], w, [], []) None = Some (''name'', StrVal w)"
    using assms(1) by (simp add: assign_def)
  ultimately show ?thesis by (rule tokens_Cons)
qed

lemma tokens_operator:
  assumes "ops \<noteq> []" "\<forall>c \<in> set ops. is_op c" "s = [] \<or> \<not> is_op (hd s)"
  shows "tokens (ops @ s) = Token ops (StrVal ops) (Some (0, 0)) # tokens s"
proof -
  have "findall (ops @ s) = ([], [], ops, []) # findall s"
    using assms by (rule findall_operator)
  moreover have "assign ([], [], ops, []) None = Some (ops, StrVal ops)"
    using assms(1) by (simp add: assign_def)
  ultimately show ?thesis by (rule tokens_Cons)
qed

lemma tokens_bracket:
  assumes "is_bracket b"
  shows "tokens (b # s) = Token [b] (StrVal [b]) (Some (0, 0)) # tokens s"
proof -
  have "findall (b # s) = ([], [], [], [b]) # findall s"
    using assms by (rule findall_bracket)
  moreover have "assign ([], [], [], [b]) None = Some ([b], StrVal [b])"
    by (simp add: assign_def)
  ultimately show ?thesis by (rule tokens_Cons)
qed

lemma lexical_rules_tokens: "lexical_rules tokens"
  unfolding lexical_rules_def
proof (intro conjI allI impI)
  show "tokens [] = []" by (rule tokens_Nil)
next
  fix c s assume "is_space c"
  then show "tokens (c # s) = tokens s" by (rule tokens_space)
next
  fix c s assume "\<not> is_space c \<and> \<not> is_word c \<and> \<not> is_op c \<and> \<not> is_bracket c"
  then show "tokens (c # s) = tokens s" by (simp add: tokens_unmatched)
next
  fix ds s assume "ds \<noteq> [] \<and> (\<forall>c \<in> set ds. is_digit c) \<and> (s = [] \<or> \<not> is_digit (hd s))"
  then show "tokens (ds @ s) = Token ''number'' (IntVal (int_of_digits ds)) (Some (0, 0)) # tokens s"
    by (intro tokens_number) simp_all
next
  fix w s assume "w \<noteq> [] \<and> \<not> is_digit (hd w) \<and> (\<forall>c \<in> set w. is_word c)
      \<and> (s = [] \<or> \<not> is_word (hd s))"
  then show "tokens (w @ s) = Token ''name'' (StrVal w) (Some (0, 0)) # tokens s"
    by (intro tokens_name) simp_all
next
  fix ops s assume "ops \<noteq> [] \<and> (\<forall>c \<in> set ops. is_op c) \<and> (s = [] \<or> \<not> is_op (hd s))"
  then show "tokens (ops @ s) = Token ops (StrVal ops) (Some (0, 0)) # tokens s"
    by (intro tokens_operator) simp_all
next
  fix b s assume "is_bracket b"
  then show "tokens (b # s) = Token [b] (StrVal [b]) (Some (0, 0)) # tokens s"
    by (rule tokens_bracket)
qed

lemma lexical_rules_empty: "lexical_rules f \<Longrightarrow> f [] = []"
  unfolding lexical_rules_def by (elim conjE)

lemma lexical_rules_space:
  assumes "lexical_rules f" "is_space c"
  shows "f (c # s) = f s"
  using assms(1) [unfolded lexical_rules_def, THEN conjunct2, THEN conjunct1, rule_format, of c s]
    assms(2)
  by simp

lemma lexical_rules_unmatched:
  assumes "lexical_rules f" "\<not> is_space c" "\<not> is_word c" "\<not> is_op c" "\<not> is_bracket c"
  shows "f (c # s) = f s"
  using assms(1) [unfolded lexical_rules_def, THEN conjunct2, THEN conjunct2, THEN conjunct1,
      rule_format, of c s]
    assms(2-5)
  by simp

lemma lexical_rules_number:
  assumes "lexical_rules f" "ds \<noteq> []" "\<forall>c \<in> set ds. is_digit c" "s = [] \<or> \<not> is_digit (hd s)"
  shows "f (ds @ s) = Token ''number'' (IntVal (int_of_digits ds)) (Some (0, 0)) # f s"
  using assms(1) [unfolded lexical_rules_def, THEN conjunct2, THEN conjunct2, THEN conjunct2,
      THEN conjunct1, rule_format, of ds s]
    assms(2-4)
  by simp

lemma lexical_rules_name:
  assumes "lexical_rules f" "w \<noteq> []" "\<not> is_digit (hd w)" "\<forall>c \<in> set w. is_word c"
    "s = [] \<or> \<not> is_word (hd s)"
  shows "f (w @ s) = Token ''name'' (StrVal w) (Some (0, 0)) # f s"
  using assms(1) [unfolded lexical_rules_def, THEN conjunct2, THEN conjunct2, THEN conjunct2,
      THEN conjunct2, THEN conjunct1, rule_format, of w s]
    assms(2-5)
  by simp

lemma lexical_rules_operator:
  assumes "lexical_rules f" "ops \<noteq> []" "\<forall>c \<in> set ops. is_op c" "s = [] \<or> \<not> is_op (hd s)"
  shows "f (ops @ s) = Token ops (StrVal ops) (Some (0, 0)) # f s"
  using assms(1) [unfolded lexical_rules_def, THEN conjunct2, THEN conjunct2, THEN conjunct2,
      THEN conjunct2, THEN conjunct2, THEN conjunct1, rule_format, of ops s]
    assms(2-4)
  by simp

lemma lexical_rules_bracket:
  assumes "lexical_rules f" "is_bracket b"
  shows "f (b # s) = Token [b] (StrVal [b]) (Some (0, 0)) # f s"
  using assms(1) [unfolded lexical_rules_def, THEN conjunct2, THEN conjunct2, THEN conjunct2,
      THEN conjunct2, THEN conjunct2, THEN conjunct2, rule_format, of b s]
    assms(2)
  by simp

lemma run_split:
  assumes "P c"
  shows "\<exists>run r. c # cs = run @ r \<and> run \<noteq> [] \<and> hd run = c \<and> (\<forall>x \<in> set run. P x)
           \<and> (r = [] \<or> \<not> P (hd r)) \<and> length r < length (c # cs)"
proof (intro exI conjI)
  show "c # cs = (c # takeWhile P cs) @ dropWhile P cs" by simp
  show "c # takeWhile P cs \<noteq> []" by simp
  show "hd (c # takeWhile P cs) = c" by simp
  show "\<forall>x \<in> set (c # takeWhile P cs). P x"
    using assms by (auto dest: set_takeWhileD)
  show "dropWhile P cs = [] \<or> \<not> P (hd (dropWhile P cs))"
    using hd_dropWhile [of P cs] by blast
  show "length (dropWhile P cs) < length (c # cs)"
    by (simp add: le_imp_less_Suc length_dropWhile_le)
qed

lemma lexical_rules_unique:
  assumes f: "lexical_rules f" and g: "lexical_rules g"
  shows "f s = g s"
proof (induction s rule: length_induct)
  case (1 s)
  then have ih: "\<And>r. length r < length s \<Longrightarrow> f r = g r" by blast
  show ?case
  proof (cases s)
    case Nil
    with lexical_rules_empty [OF f] lexical_rules_empty [OF g] show ?thesis by simp
  next
    case (Cons c cs)
    have short: "f cs = g cs" using ih [of cs] Cons by simp
    consider (space) "is_space c"
      | (digit) "is_digit c"
      | (word) "\<not> is_digit c" "is_word c"
      | (oper) "is_op c"
      | (bracket) "is_bracket c"
      | (other) "\<not> is_space c" "\<not> is_word c" "\<not> is_op c" "\<not> is_bracket c"
      by blast
    then show ?thesis
    proof cases
      case space
      from lexical_rules_space [OF f space, of cs] lexical_rules_space [OF g space, of cs]
        short Cons
      show ?thesis by simp
    next
      case digit
      from run_split [of is_digit c cs, OF digit] obtain run r where
        r: "c # cs = run @ r" "run \<noteq> []" "\<forall>x \<in> set run. is_digit x"
        "r = [] \<or> \<not> is_digit (hd r)" "length r < length (c # cs)"
        by blast
      have "f r = g r" using ih [of r] r(5) Cons by simp
      with lexical_rules_number [OF f r(2,3,4)] lexical_rules_number [OF g r(2,3,4)]
      have "f (run @ r) = g (run @ r)" by simp
      with r(1) Cons show ?thesis by simp
    next
      case word
      from run_split [of is_word c cs, OF word(2)] obtain run r where
        r: "c # cs = run @ r" "run \<noteq> []" "hd run = c" "\<forall>x \<in> set run. is_word x"
        "r = [] \<or> \<not> is_word (hd r)" "length r < length (c # cs)"
        by blast
      from r(3) word(1) have d: "\<not> is_digit (hd run)" by simp
      have "f r = g r" using ih [of r] r(6) Cons by simp
      with lexical_rules_name [OF f r(2) d r(4,5)] lexical_rules_name [OF g r(2) d r(4,5)]
      have "f (run @ r) = g (run @ r)" by simp
      with r(1) Cons show ?thesis by simp
    next
      case oper
      from run_split [of is_op c cs, OF oper] obtain run r where
        r: "c # cs = run @ r" "run \<noteq> []" "\<forall>x \<in> set run. is_op x"
        "r = [] \<or> \<not> is_op (hd r)" "length r < length (c # cs)"
        by blast
      have "f r = g r" using ih [of r] r(5) Cons by simp
      with lexical_rules_operator [OF f r(2,3,4)] lexical_rules_operator [OF g r(2,3,4)]
      have "f (run @ r) = g (run @ r)" by simp
      with r(1) Cons show ?thesis by simp
    next
      case bracket
      from lexical_rules_bracket [OF f bracket, of cs] lexical_rules_bracket [OF g bracket, of cs]
        short Cons
      show ?thesis by simp
    next
      case other
      from lexical_rules_unmatched [OF f other, of cs] lexical_rules_unmatched [OF g other, of cs]
        short Cons
      show ?thesis by simp
    qed
  qed
qed

text \<open>
  Claim C6. For every source text the tokenizer matches leftmost and greedily after
  skipping white space. Where the scanner stands on a maximal run of decimal digits it
  emits one token of type \<^verbatim>\<open>number\<close> whose value is the integer the run denotes
  (\<open>int_of_digits\<close> is the decimal value, digit by digit, and inverts the decimal
  notation \<open>digits_of\<close>); on a maximal run of operator symbols one token whose type and
  value are the run itself; on each of \<^verbatim>\<open>( ) [ ]\<close> a token of that single character,
  also right after a run of operator symbols, with which it is never merged; on a
  maximal run of word characters that does not start with a digit one token of type
  \<^verbatim>\<open>name\<close>; and a character of no class is skipped. The scanner stands after each
  token it has emitted, so these equations give the tokens of the whole text: they hold
  of \<open>tokens\<close>, and \<open>tokens\<close> is the only function of which they hold.
\<close>

theorem tokens_maximal_munch:
  "tokens [] = []
   \<and> ((\<forall>c \<in> set ws. is_space c) \<longrightarrow> tokens (ws @ s) = tokens s)
   \<and> (\<not> is_space c \<and> \<not> is_word c \<and> \<not> is_op c \<and> \<not> is_bracket c \<longrightarrow>
        tokens (c # s) = tokens s)
   \<and> (ds \<noteq> [] \<and> (\<forall>c \<in> set ds. is_digit c) \<and> (s = [] \<or> \<not> is_digit (hd s)) \<longrightarrow>
        tokens (ds @ s) = Token ''number'' (IntVal (int_of_digits ds)) (Some (0, 0)) # tokens s)
   \<and> int_of_digits [] = 0
   \<and> int_of_digits (ds @ [d]) = 10 * int_of_digits ds + (int (of_char d) - 48)
   \<and> int_of_digits (digits_of n) = int n
   \<and> (w \<noteq> [] \<and> \<not> is_digit (hd w) \<and> (\<forall>c \<in> set w. is_word c)
        \<and> (s = [] \<or> \<not> is_word (hd s)) \<longrightarrow>
        tokens (w @ s) = Token ''name'' (StrVal w) (Some (0, 0)) # tokens s)
   \<and> (ops \<noteq> [] \<and> (\<forall>c \<in> set ops. is_op c) \<and> (s = [] \<or> \<not> is_op (hd s)) \<longrightarrow>
        tokens (ops @ s) = Token ops (StrVal ops) (Some (0, 0)) # tokens s)
   \<and> (is_bracket b \<longrightarrow> tokens (b # s) = Token [b] (StrVal [b]) (Some (0, 0)) # tokens s)
   \<and> (ops \<noteq> [] \<and> (\<forall>c \<in> set ops. is_op c) \<and> is_bracket b \<longrightarrow>
        tokens (ops @ b # s)
          = Token ops (StrVal ops) (Some (0, 0)) # Token [b] (StrVal [b]) (Some (0, 0)) # tokens s)
   \<and> lexical_rules tokens
   \<and> (lexical_rules f \<longrightarrow> f = tokens)"
proof (intro conjI impI)
  show "tokens [] = []" by (rule tokens_Nil)
next
  assume "\<forall>c \<in> set ws. is_space c"
  then show "tokens (ws @ s) = tokens s"
    by (simp add: tokens_def findall_spaces)
next
  assume "\<not> is_space c \<and> \<not> is_word c \<and> \<not> is_op c \<and> \<not> is_bracket c"
  then show "tokens (c # s) = tokens s" by (simp add: tokens_unmatched)
next
  assume "ds \<noteq> [] \<and> (\<forall>c \<in> set ds. is_digit c) \<and> (s = [] \<or> \<not> is_digit (hd s))"
  then show "tokens (ds @ s)
      = Token ''number'' (IntVal (int_of_digits ds)) (Some (0, 0)) # tokens s"
    by (intro tokens_number) simp_all
next
  show "int_of_digits [] = 0" by (simp add: int_of_digits_def)
next
  show "int_of_digits (ds @ [d]) = 10 * int_of_digits ds + (int (of_char d) - 48)"
    by (rule int_of_digits_snoc)
next
  show "int_of_digits (digits_of n) = int n" by (rule int_of_digits_of)
next
  assume "w \<noteq> [] \<and> \<not> is_digit (hd w) \<and> (\<forall>c \<in> set w. is_word c)
      \<and> (s = [] \<or> \<not> is_word (hd s))"
  then show "tokens (w @ s) = Token ''name'' (StrVal w) (Some (0, 0)) # tokens s"
    by (intro tokens_name) simp_all
next
  assume "ops \<noteq> [] \<and> (\<forall>c \<in> set ops. is_op c) \<and> (s = [] \<or> \<not> is_op (hd s))"
  then show "tokens (ops @ s) = Token ops (StrVal ops) (Some (0, 0)) # tokens s"
    by (intro tokens_operator) simp_all
next
  assume "is_bracket b"
  then show "tokens (b # s) = Token [b] (StrVal [b]) (Some (0, 0)) # tokens s"
    by (rule tokens_bracket)
next
  assume a: "ops \<noteq> [] \<and> (\<forall>c \<in> set ops. is_op c) \<and> is_bracket b"
  then have nb: "\<not> is_op b" using bracket_not_word by blast
  from a nb have "tokens (ops @ b # s) = Token ops (StrVal ops) (Some (0, 0)) # tokens (b # s)"
    by (intro tokens_operator) simp_all
  moreover from a have "tokens (b # s) = Token [b] (StrVal [b]) (Some (0, 0)) # tokens s"
    by (intro tokens_bracket) simp
  ultimately show "tokens (ops @ b # s)
      = Token ops (StrVal ops) (Some (0, 0)) # Token [b] (StrVal [b]) (Some (0, 0)) # tokens s"
    by simp
next
  show "lexical_rules tokens" by (rule lexical_rules_tokens)
next
  assume "lexical_rules f"
  then show "f = tokens"
    by (intro ext lexical_rules_unique lexical_rules_tokens)
qed

lemma class_examples:
  "is_space CHR '' ''" "is_digit CHR ''4''" "is_digit CHR ''2''" "\<not> is_digit CHR ''*''"
  "is_op CHR ''*''" "is_op CHR ''+''" "is_op CHR ''=''" "\<not> is_op CHR ''(''" "is_bracket CHR ''(''"
  "\<not> is_space CHR ''{''" "\<not> is_word CHR ''{''" "\<not> is_op CHR ''{''" "\<not> is_bracket CHR ''{''"
  "\<not> is_op CHR ''7''"
  by (simp_all add: is_space_def is_digit_def is_word_def is_op_def is_bracket_def)

lemma class_examples_name:
  "is_word CHR ''x''" "\<not> is_digit CHR ''x''" "\<not> is_word CHR ''+''" "is_digit CHR ''1''"
  "\<not> is_op CHR ''1''" "\<not> is_digit CHR ''+''" "is_word CHR ''1''" "\<not> is_word CHR '' ''"
  by (simp_all add: is_digit_def is_word_def is_op_def)

theorem tokens_maximal_munch_witness:
  "tokens (''  '' @ ''7'') = tokens ''7''
   \<and> tokens (''42'' @ ''**(7'')
       = Token ''number'' (IntVal 42) (Some (0, 0)) # tokens ''**(7''
   \<and> tokens (''**'' @ ''7'') = Token ''**'' (StrVal ''**'') (Some (0, 0)) # tokens ''7''
   \<and> tokens (CHR ''('' # ''7'') = Token ''('' (StrVal ''('') (Some (0, 0)) # tokens ''7''
   \<and> tokens (''+='' @ CHR ''('' # ''7'')
       = Token ''+='' (StrVal ''+='') (Some (0, 0)) # Token ''('' (StrVal ''('') (Some (0, 0))
           # tokens ''7''
   \<and> tokens (CHR ''{'' # ''7'') = tokens ''7''
   \<and> tokens ''x1 +=1''
       = [Token ''name'' (StrVal ''x1'') (Some (0, 0)), Token ''+='' (StrVal ''+='') (Some (0, 0)),
          Token ''number'' (IntVal 1) (Some (0, 0))]"
proof -
  have i: "int_of_digits ''42'' = 42" "int_of_digits ''1'' = 1" by (simp_all add: int_of_digits_def)
  from tokens_maximal_munch [where ws = "''  ''" and s = "''7''" and ops = "''**''"
      and b = "CHR ''(''" and c = "CHR ''{''"]
  have 1: "tokens (''  '' @ ''7'') = tokens ''7''"
    and 3: "tokens (''**'' @ ''7'') = Token ''**'' (StrVal ''**'') (Some (0, 0)) # tokens ''7''"
    and 4: "tokens (CHR ''('' # ''7'') = Token ''('' (StrVal ''('') (Some (0, 0)) # tokens ''7''"
    and 6: "tokens (CHR ''{'' # ''7'') = tokens ''7''"
    by (simp_all add: class_examples)
  from tokens_maximal_munch [where s = "''**(7''" and ds = "''42''"] i
  have 2: "tokens (''42'' @ ''**(7'')
       = Token ''number'' (IntVal 42) (Some (0, 0)) # tokens ''**(7''"
    by (simp add: class_examples)
  from tokens_maximal_munch [where s = "''7''" and ops = "''+=''" and b = "CHR ''(''"]
  have 5: "tokens (''+='' @ CHR ''('' # ''7'')
       = Token ''+='' (StrVal ''+='') (Some (0, 0)) # Token ''('' (StrVal ''('') (Some (0, 0))
           # tokens ''7''"
    by (simp add: class_examples)
  from tokens_maximal_munch [where w = "''x1''" and s = "'' +=1''"]
  have a: "tokens (''x1'' @ '' +=1'')
       = Token ''name'' (StrVal ''x1'') (Some (0, 0)) # tokens '' +=1''"
    by (simp add: class_examples_name)
  from tokens_maximal_munch [where ws = "'' ''" and s = "''+=1''"]
  have b: "tokens ('' '' @ ''+=1'') = tokens ''+=1''"
    by (simp add: class_examples)
  from tokens_maximal_munch [where ops = "''+=''" and s = "''1''"]
  have c: "tokens (''+='' @ ''1'') = Token ''+='' (StrVal ''+='') (Some (0, 0)) # tokens ''1''"
    by (simp add: class_examples class_examples_name)
  from tokens_maximal_munch [where ds = "''1''" and s = "[]"] i
  have d: "tokens (''1'' @ []) = Token ''number'' (IntVal 1) (Some (0, 0)) # tokens []"
    by (simp add: class_examples_name)
  from tokens_maximal_munch have e: "tokens [] = []" by blast
  from a b c d e have 7: "tokens ''x1 +=1''
       = [Token ''name'' (StrVal ''x1'') (Some (0, 0)), Token ''+='' (StrVal ''+='') (Some (0, 0)),
          Token ''number'' (IntVal 1) (Some (0, 0))]"
    by simp
  from 1 2 3 4 5 6 7 show ?thesis by blast
qed

text \<open>
  Claim C5, as amended. A character that is not white space, not a word character (so
  not a digit either), not an operator symbol and not a bracket produces no token, and
  the scan goes on with the character after it: the tokens of the text are the tokens
  of what precedes the character followed by the tokens of what follows it. Building
  the stream raises nothing.
\<close>

theorem unmatched_character_skipped:
  assumes "\<not> is_space c" "\<not> is_word c" "\<not> is_op c" "\<not> is_bracket c"
  shows "findall (c # s) = findall s
         \<and> tokens (pre @ c # s) = tokens pre @ tokens s
         \<and> (\<exists>st. TokenStream (pre @ c # s) = Inr st)"
proof (intro conjI)
  show "findall (c # s) = findall s" using assms by (rule findall_unmatched)
  show "tokens (pre @ c # s) = tokens pre @ tokens s"
    using findall_before_unmatched [OF assms, of pre s]
      convert_append [OF findall_good findall_good, of pre s None]
    by (simp add: tokens_def)
  show "\<exists>st. TokenStream (pre @ c # s) = Inr st"
    by (simp add: TokenStream_Inr)
qed

theorem unmatched_character_skipped_witness:
  "findall (CHR ''{'' # ''1'') = findall ''1''
   \<and> tokens (''x'' @ CHR ''{'' # ''1'') = tokens ''x'' @ tokens ''1''
   \<and> (\<exists>st. TokenStream (''x'' @ CHR ''{'' # ''1'') = Inr st)"
  using unmatched_character_skipped [of "CHR ''{''" "''1''" "''x''"]
  by (simp add: class_examples)

text \<open>
  Claim C5 as stated says that the scan stops at such a character and no further token
  is produced from there on. On the text \<^verbatim>\<open>{1\<close> the scanner stands on \<^verbatim>\<open>{\<close> at
  once, and the token of \<^verbatim>\<open>1\<close> is still produced.
\<close>

theorem scanning_stops_counterexample:
  "\<not> is_space CHR ''{'' \<and> \<not> is_word CHR ''{'' \<and> \<not> is_op CHR ''{'' \<and> \<not> is_bracket CHR ''{''
   \<and> tokens ''{1'' = [Token ''number'' (IntVal 1) (Some (0, 0))]
   \<and> tokens ''{1'' \<noteq> []"
proof -
  have "tokens ''{1'' = [Token ''number'' (IntVal 1) (Some (0, 0))]"
    by code_simp
  then show ?thesis by (simp add: class_examples)
qed

section \<open>The token stream claims\<close>

text \<open>
  Claim C8. Let \<open>t1 .. tn\<close> be \<open>tokens s\<close>. Building the stream succeeds; after \<open>k\<close>
  calls of \<^verbatim>\<open>next\<close> the field \<^verbatim>\<open>current\<close> is the token of index \<open>k\<close> (counted from
  0), or the eof sentinel from \<open>k = n\<close> on; the call of \<^verbatim>\<open>next\<close> made after \<open>k < n\<close>
  earlier ones returns the token of index \<open>k\<close>, the one just left behind; once
  \<^verbatim>\<open>current\<close> is the sentinel it stays the sentinel; and no token of the text is the
  sentinel or has its type.
\<close>

theorem TokenStream_cursor:
  "\<exists>st0. TokenStream s = Inr st0
     \<and> (\<forall>k. current (nexts k st0) = (if k < length (tokens s) then tokens s ! k else EOF_TOKEN))
     \<and> (\<forall>k. k < length (tokens s) \<longrightarrow> fst (advance (nexts k st0)) = Inr (tokens s ! k))
     \<and> (\<forall>k j. current (nexts k st0) = EOF_TOKEN \<and> k \<le> j \<longrightarrow> current (nexts j st0) = EOF_TOKEN)
     \<and> (\<forall>t \<in> set (tokens s). t \<noteq> EOF_TOKEN \<and> type t \<noteq> type EOF_TOKEN)"
proof (intro exI conjI allI impI ballI)
  show "TokenStream s = Inr (snd (advance (new_stream s)))" by (rule TokenStream_Inr)
next
  fix k
  show "current (nexts k (snd (advance (new_stream s))))
          = (if k < length (tokens s) then tokens s ! k else EOF_TOKEN)"
    by (rule stream_current)
next
  fix k assume "k < length (tokens s)"
  then show "fst (advance (nexts k (snd (advance (new_stream s))))) = Inr (tokens s ! k)"
    by (simp add: stream_advance)
next
  fix k j
  assume "current (nexts k (snd (advance (new_stream s)))) = EOF_TOKEN \<and> k \<le> j"
  then have "length (tokens s) \<le> j" by (simp add: stream_eof_iff)
  then show "current (nexts j (snd (advance (new_stream s)))) = EOF_TOKEN"
    by (simp add: stream_eof_iff)
next
  fix t assume "t \<in> set (tokens s)"
  then show "t \<noteq> EOF_TOKEN" "type t \<noteq> type EOF_TOKEN"
    using tokens_not_eof by blast+
qed

lemma tokens_example:
  "tokens ''1+2'' = [Token ''number'' (IntVal 1) (Some (0, 0)), Token ''+'' (StrVal ''+'') (Some (0, 0)),
                    Token ''number'' (IntVal 2) (Some (0, 0))]"
  by code_simp

theorem TokenStream_cursor_witness:
  "\<exists>st0. TokenStream ''1+2'' = Inr st0
     \<and> current st0 = Token ''number'' (IntVal 1) (Some (0, 0))
     \<and> fst (advance st0) = Inr (Token ''number'' (IntVal 1) (Some (0, 0)))
     \<and> current (nexts 1 st0) = Token ''+'' (StrVal ''+'') (Some (0, 0))
     \<and> fst (advance (nexts 2 st0)) = Inr (Token ''number'' (IntVal 2) (Some (0, 0)))
     \<and> current (nexts 3 st0) = EOF_TOKEN
     \<and> current (nexts 5 st0) = EOF_TOKEN"
proof -
  from TokenStream_cursor [of "''1+2''"] obtain st0 where
    a: "TokenStream ''1+2'' = Inr st0"
    and b: "\<And>k. current (nexts k st0)
               = (if k < length (tokens ''1+2'') then tokens ''1+2'' ! k else EOF_TOKEN)"
    and c: "\<And>k. k < length (tokens ''1+2'') \<Longrightarrow> fst (advance (nexts k st0)) = Inr (tokens ''1+2'' ! k)"
    and d: "\<And>k j. current (nexts k st0) = EOF_TOKEN \<and> k \<le> j \<Longrightarrow> current (nexts j st0) = EOF_TOKEN"
    by blast
  have 3: "current (nexts 3 st0) = EOF_TOKEN" using b [of 3] by (simp add: tokens_example)
  have "current (nexts 5 st0) = EOF_TOKEN" using d [of 3 5] 3 by simp
  moreover have "current st0 = Token ''number'' (IntVal 1) (Some (0, 0))"
    using b [of 0] by (simp add: tokens_example)
  moreover have "fst (advance st0) = Inr (Token ''number'' (IntVal 1) (Some (0, 0)))"
    using c [of 0] by (simp add: tokens_example)
  moreover have "current (nexts 1 st0) = Token ''+'' (StrVal ''+'') (Some (0, 0))"
    using b [of 1] by (simp add: tokens_example)
  moreover have "fst (advance (nexts 2 st0)) = Inr (Token ''number'' (IntVal 2) (Some (0, 0)))"
    using c [of 2] by (simp add: tokens_example)
  ultimately show ?thesis using a 3 by blast
qed

text \<open>
  Claim C10. In every state a stream built from a text reaches by calls of \<^verbatim>\<open>next\<close>,
  a further \<^verbatim>\<open>next\<close> raises \<^verbatim>\<open>StopIteration\<close> if and only if \<^verbatim>\<open>current\<close> is the eof
  sentinel (equivalently, has the sentinel's type); it then leaves the stream as it was,
  so \<^verbatim>\<open>current\<close> remains the sentinel; and \<^verbatim>\<open>next\<close> never raises a
  \<^verbatim>\<open>ParseError\<close>.
\<close>

theorem advance_StopIteration:
  assumes "TokenStream s = Inr st0"
  shows "(fst (advance (nexts k st0)) = Inl StopIteration \<longleftrightarrow> current (nexts k st0) = EOF_TOKEN)
         \<and> (current (nexts k st0) = EOF_TOKEN \<longleftrightarrow> type (current (nexts k st0)) = type EOF_TOKEN)
         \<and> (current (nexts k st0) = EOF_TOKEN \<longrightarrow>
              advance (nexts k st0) = (Inl StopIteration, nexts k st0))
         \<and> (\<forall>msg. fst (advance (nexts k st0)) \<noteq> Inl (ParseError msg))"
proof -
  from assms have st0: "st0 = snd (advance (new_stream s))" by (simp add: TokenStream_Inr)
  have 1: "fst (advance (nexts k st0)) = Inl StopIteration \<longleftrightarrow> current (nexts k st0) = EOF_TOKEN"
    unfolding st0 by (simp add: stream_advance stream_eof_iff)
  have 2: "current (nexts k st0) = EOF_TOKEN \<longleftrightarrow> type (current (nexts k st0)) = type EOF_TOKEN"
    unfolding st0 by (simp add: stream_eof_iff stream_type_eof_iff)
  have 3: "current (nexts k st0) = EOF_TOKEN \<longrightarrow>
             advance (nexts k st0) = (Inl StopIteration, nexts k st0)"
    unfolding st0 by (simp add: stream_eof_iff stream_exhausted advance_exhausted)
  have 4: "\<forall>msg. fst (advance (nexts k st0)) \<noteq> Inl (ParseError msg)"
    unfolding st0 by (simp add: stream_advance)
  from 1 2 3 4 show ?thesis by blast
qed

lemma TokenStream_example:
  "TokenStream ''7'' = Inr \<lparr>current = Token ''number'' (IntVal 7) (Some (0, 0)), pending = [],
      locals = Some (''number'', IntVal 7), exhausted = False\<rparr>"
  by code_simp

theorem advance_StopIteration_witness:
  "TokenStream ''7'' = Inr \<lparr>current = Token ''number'' (IntVal 7) (Some (0, 0)), pending = [],
      locals = Some (''number'', IntVal 7), exhausted = False\<rparr>
   \<and> fst (advance \<lparr>current = Token ''number'' (IntVal 7) (Some (0, 0)), pending = [],
      locals = Some (''number'', IntVal 7), exhausted = False\<rparr>) \<noteq> Inl StopIteration
   \<and> current (nexts 1 \<lparr>current = Token ''number'' (IntVal 7) (Some (0, 0)), pending = [],
      locals = Some (''number'', IntVal 7), exhausted = False\<rparr>) = EOF_TOKEN
   \<and> fst (advance (nexts 1 \<lparr>current = Token ''number'' (IntVal 7) (Some (0, 0)), pending = [],
      locals = Some (''number'', IntVal 7), exhausted = False\<rparr>)) = Inl StopIteration
   \<and> current (nexts 2 \<lparr>current = Token ''number'' (IntVal 7) (Some (0, 0)), pending = [],
      locals = Some (''number'', IntVal 7), exhausted = False\<rparr>) = EOF_TOKEN"
proof -
  let ?st = "\<lparr>current = Token ''number'' (IntVal 7) (Some (0, 0)), pending = [],
      locals = Some (''number'', IntVal 7), exhausted = False\<rparr>"
  have c0: "current (nexts 0 ?st) \<noteq> EOF_TOKEN" by (simp add: EOF_TOKEN_def Token_def)
  have c1: "current (nexts 1 ?st) = EOF_TOKEN" by (simp add: advance_def)
  have n2: "nexts 2 ?st = nexts 1 ?st"
    by (simp add: numeral_2_eq_2 advance_def)
  from advance_StopIteration [OF TokenStream_example, of 0] c0
  have "fst (advance ?st) \<noteq> Inl StopIteration" by simp
  moreover from advance_StopIteration [OF TokenStream_example, of 1] c1
  have "fst (advance (nexts 1 ?st)) = Inl StopIteration" by blast
  ultimately show ?thesis using TokenStream_example c1 n2 by simp
qed

section \<open>Properties of the rule table\<close>

lemma null_step_rules:
  "null_rules (null_step bp f t rm) = (null_rules rm)(t \<mapsto> (f, bp))"
  "left_rules (null_step bp f t rm)
     = (if left_rules rm t = None then (left_rules rm)(t \<mapsto> (raise_left_error, 0, 0))
        else left_rules rm)"
  by (simp_all add: null_step_def Let_def)

lemma left_step_rules:
  "left_rules (left_step lbp rbp f t rm) = (left_rules rm)(t \<mapsto> (f, lbp, rbp))"
  "null_rules (left_step lbp rbp f t rm)
     = (if null_rules rm t = None then (null_rules rm)(t \<mapsto> (raise_null_error, 0))
        else null_rules rm)"
  by (simp_all add: left_step_def Let_def)

lemma fold_null_step_null:
  "null_rules (fold (null_step bp f) ts rm) x
     = (if x \<in> set ts then Some (f, bp) else null_rules rm x)"
  by (induction ts arbitrary: rm) (simp_all add: null_step_rules)

lemma fold_null_step_left:
  "left_rules (fold (null_step bp f) ts rm) x
     = (if x \<in> set ts \<and> left_rules rm x = None then Some (raise_left_error, 0, 0)
        else left_rules rm x)"
  by (induction ts arbitrary: rm) (simp_all add: null_step_rules)

lemma fold_left_step_left:
  "left_rules (fold (left_step lbp rbp f) ts rm) x
     = (if x \<in> set ts then Some (f, lbp, rbp) else left_rules rm x)"
  by (induction ts arbitrary: rm) (simp_all add: left_step_rules)

lemma fold_left_step_null:
  "null_rules (fold (left_step lbp rbp f) ts rm) x
     = (if x \<in> set ts \<and> null_rules rm x = None then Some (raise_null_error, 0)
        else null_rules rm x)"
  by (induction ts arbitrary: rm) (simp_all add: left_step_rules)

lemma register_null_rules:
  "null_rules (register_null bp ts f rm) x
     = (if x \<in> set ts then Some (f, bp) else null_rules rm x)"
  "left_rules (register_null bp ts f rm) x
     = (if x \<in> set ts \<and> left_rules rm x = None then Some (raise_left_error, 0, 0)
        else left_rules rm x)"
  by (simp_all add: register_null_def fold_null_step_null fold_null_step_left)

lemma register_left_rules:
  "left_rules (register_left bp ts a f rm) x
     = (if x \<in> set ts then Some (f, bp, if a then bp - 1 else bp) else left_rules rm x)"
  "null_rules (register_left bp ts a f rm) x
     = (if x \<in> set ts \<and> null_rules rm x = None then Some (raise_null_error, 0)
        else null_rules rm x)"
  by (simp_all add: register_left_def Let_def fold_left_step_left fold_left_step_null)

lemma register_dom:
  assumes "dom (null_rules rm) = dom (left_rules rm)"
  shows "dom (null_rules (register r rm)) = dom (left_rules (register r rm))"
proof -
  have e: "\<And>x. (null_rules rm x = None) = (left_rules rm x = None)"
    using assms by (metis domIff)
  have "\<And>x. (null_rules (register r rm) x = None) = (left_rules (register r rm) x = None)"
  proof (cases r)
    case (RegisterNull bp ts f)
    fix x show "(null_rules (register r rm) x = None) = (left_rules (register r rm) x = None)"
      using e [of x] RegisterNull by (auto simp: register_null_rules)
  next
    case (RegisterLeft bp ts a f)
    fix x show "(null_rules (register r rm) x = None) = (left_rules (register r rm) x = None)"
      using e [of x] RegisterLeft by (auto simp: register_left_rules)
  qed
  then show ?thesis by (auto simp: dom_def)
qed

lemma fold_register_dom:
  "dom (null_rules rm) = dom (left_rules rm) \<Longrightarrow>
   dom (null_rules (fold register regs rm)) = dom (left_rules (fold register regs rm))"
  by (induction regs arbitrary: rm) (simp_all add: register_dom)

lemma fold_register_null_only:
  "t \<notin> set (concat (map left_types regs)) \<Longrightarrow>
   left_rules (fold register regs rm) t
     = (if t \<in> set (concat (map null_types regs)) \<and> left_rules rm t = None
        then Some (raise_left_error, 0, 0) else left_rules rm t)"
proof (induction regs arbitrary: rm)
  case Nil
  show ?case by simp
next
  case (Cons r regs)
  then have t: "t \<notin> set (left_types r)" "t \<notin> set (concat (map left_types regs))" by simp_all
  show ?case
  proof (cases r)
    case (RegisterNull bp ts f)
    with Cons.IH [OF t(2)] show ?thesis by (simp add: register_null_rules)
  next
    case (RegisterLeft bp ts a f)
    with Cons.IH [OF t(2)] t(1) show ?thesis by (simp add: register_left_rules)
  qed
qed

lemma fold_register_left_only:
  "t \<notin> set (concat (map null_types regs)) \<Longrightarrow>
   null_rules (fold register regs rm) t
     = (if t \<in> set (concat (map left_types regs)) \<and> null_rules rm t = None
        then Some (raise_null_error, 0) else null_rules rm t)"
proof (induction regs arbitrary: rm)
  case Nil
  show ?case by simp
next
  case (Cons r regs)
  then have t: "t \<notin> set (null_types r)" "t \<notin> set (concat (map null_types regs))" by simp_all
  show ?case
  proof (cases r)
    case (RegisterNull bp ts f)
    with Cons.IH [OF t(2)] t(1) show ?thesis by (simp add: register_null_rules)
  next
    case (RegisterLeft bp ts a f)
    with Cons.IH [OF t(2)] show ?thesis by (simp add: register_left_rules)
  qed
qed

lemma build_left_only:
  "t \<in> set (concat (map left_types regs)) \<Longrightarrow> t \<notin> set (concat (map null_types regs)) \<Longrightarrow>
   null_rules (build regs) t = Some (raise_null_error, 0)"
  by (simp add: build_def fold_register_left_only empty_rule_map_def)

lemma build_null_only:
  "t \<in> set (concat (map null_types regs)) \<Longrightarrow> t \<notin> set (concat (map left_types regs)) \<Longrightarrow>
   left_rules (build regs) t = Some (raise_left_error, 0, 0)"
  by (simp add: build_def fold_register_null_only empty_rule_map_def)

lemma str_contains_prefix: "str_contains sub (sub @ post)"
proof (cases "sub @ post")
  case Nil
  then show ?thesis by simp
next
  case (Cons a list)
  have "take (length sub) (sub @ post) = sub" by simp
  with Cons show ?thesis by simp
qed

lemma str_contains_append: "str_contains sub (pre @ sub @ post)"
proof (induction pre)
  case Nil
  show ?case using str_contains_prefix by simp
next
  case (Cons c pre)
  then show ?case by simp
qed

section \<open>The rule table claims\<close>

text \<open>
  Claim C2. \<^verbatim>\<open>register_left(bp, types, is_left_right_assoc)\<close> applied to a handler
  installs for each listed type the infix entry with that handler, left binding power
  \<open>bp\<close>, and right binding power \<open>bp\<close> when the flag is false and \<open>bp - 1\<close> when it is
  true; the entries of the other types are left as they were. An entry is the handler
  and the two binding powers, so the flag is stored nowhere; the prefix mapping is the
  same whatever the flag.
\<close>

theorem register_left_binding_powers:
  "(t \<in> set token_types \<longrightarrow>
      left_rules (register_left bp token_types a f rm) t
        = Some (f, bp, if a then bp - 1 else bp))
   \<and> (t \<notin> set token_types \<longrightarrow>
        left_rules (register_left bp token_types a f rm) t = left_rules rm t)
   \<and> null_rules (register_left bp token_types a f rm)
        = null_rules (register_left bp token_types (\<not> a) f rm)"
proof (intro conjI impI)
  assume "t \<in> set token_types"
  then show "left_rules (register_left bp token_types a f rm) t
      = Some (f, bp, if a then bp - 1 else bp)"
    by (simp add: register_left_rules)
next
  assume "t \<notin> set token_types"
  then show "left_rules (register_left bp token_types a f rm) t = left_rules rm t"
    by (simp add: register_left_rules)
next
  show "null_rules (register_left bp token_types a f rm)
      = null_rules (register_left bp token_types (\<not> a) f rm)"
    by (rule ext) (simp add: register_left_rules)
qed

theorem register_left_binding_powers_witness:
  "left_rules (register_left 29 [''**'', ''^''] True left_binary_op empty_rule_map) ''**''
     = Some (left_binary_op, 29, 28)
   \<and> left_rules (register_left 25 [''+'', ''-''] False left_binary_op empty_rule_map) ''-''
     = Some (left_binary_op, 25, 25)
   \<and> left_rules (register_left 25 [''+'', ''-''] False left_binary_op empty_rule_map) ''*''
     = left_rules empty_rule_map ''*''"
  using register_left_binding_powers [of "''**''" "[''**'', ''^'']" 29 True left_binary_op empty_rule_map]
    register_left_binding_powers [of "''-''" "[''+'', ''-'']" 25 False left_binary_op empty_rule_map]
    register_left_binding_powers [of "''*''" "[''+'', ''-'']" 25 False left_binary_op empty_rule_map]
  by simp

text \<open>
  Claim C3. After any sequence of registrations on an empty table the two mappings have
  the same keys. \<^verbatim>\<open>register_null\<close> gives a listed type that has no infix entry the
  placeholder \<^verbatim>\<open>(raise_left_error, 0, 0)\<close> and leaves every existing infix entry as
  it is; \<^verbatim>\<open>register_left\<close> does the same on the prefix mapping with
  \<^verbatim>\<open>(raise_null_error, 0)\<close>; and both placeholders raise a \<^verbatim>\<open>ParseError\<close> whatever
  they are called with.
\<close>

theorem rule_map_total:
  "dom (null_rules (build regs)) = dom (left_rules (build regs))
   \<and> (t \<in> set token_types \<and> left_rules rm t = None \<longrightarrow>
        left_rules (register_null bp token_types f rm) t = Some (raise_left_error, 0, 0))
   \<and> (left_rules rm t \<noteq> None \<longrightarrow>
        left_rules (register_null bp token_types f rm) t = left_rules rm t)
   \<and> (t \<in> set token_types \<and> null_rules rm t = None \<longrightarrow>
        null_rules (register_left bp token_types a g rm) t = Some (raise_null_error, 0))
   \<and> (null_rules rm t \<noteq> None \<longrightarrow>
        null_rules (register_left bp token_types a g rm) t = null_rules rm t)
   \<and> (\<exists>msg. raise_left_error p token_stream b nd = Some (Inl (ParseError msg)))
   \<and> (\<exists>msg. raise_null_error p token_stream b = Some (Inl (ParseError msg)))"
proof (intro conjI impI)
  show "dom (null_rules (build regs)) = dom (left_rules (build regs))"
    unfolding build_def by (rule fold_register_dom) (simp add: empty_rule_map_def)
next
  assume "t \<in> set token_types \<and> left_rules rm t = None"
  then show "left_rules (register_null bp token_types f rm) t = Some (raise_left_error, 0, 0)"
    by (simp add: register_null_rules)
next
  assume "left_rules rm t \<noteq> None"
  then show "left_rules (register_null bp token_types f rm) t = left_rules rm t"
    by (simp add: register_null_rules)
next
  assume "t \<in> set token_types \<and> null_rules rm t = None"
  then show "null_rules (register_left bp token_types a g rm) t = Some (raise_null_error, 0)"
    by (simp add: register_left_rules)
next
  assume "null_rules rm t \<noteq> None"
  then show "null_rules (register_left bp token_types a g rm) t = null_rules rm t"
    by (simp add: register_left_rules)
next
  show "\<exists>msg. raise_left_error p token_stream b nd = Some (Inl (ParseError msg))"
    by (simp add: raise_left_error_def)
next
  show "\<exists>msg. raise_null_error p token_stream b = Some (Inl (ParseError msg))"
    by (simp add: raise_null_error_def)
qed

lemma left_rules_example:
  "left_rules (register_left 25 [''+''] False left_binary_op empty_rule_map) ''+''
     = Some (left_binary_op, 25, 25)"
  "left_rules (register_left 25 [''+''] False left_binary_op empty_rule_map) ''x'' = None"
  "null_rules (register_left 25 [''+''] False left_binary_op empty_rule_map) ''+''
     = Some (raise_null_error, 0)"
  "null_rules empty_rule_map ''-'' = None"
  by (simp_all add: register_left_rules empty_rule_map_def)

theorem rule_map_total_witness:
  "dom (null_rules sample_rules) = dom (left_rules sample_rules)
   \<and> left_rules (register_null (- 1) [''x'']  null_constant
        (register_left 25 [''+''] False left_binary_op empty_rule_map)) ''x''
       = Some (raise_left_error, 0, 0)
   \<and> left_rules (register_null 31 [''+''] null_constant
        (register_left 25 [''+''] False left_binary_op empty_rule_map)) ''+''
       = Some (left_binary_op, 25, 25)
   \<and> null_rules (register_left 25 [''-''] False left_binary_op empty_rule_map) ''-''
       = Some (raise_null_error, 0)
   \<and> null_rules (register_left 27 [''+''] False left_binary_op
        (register_left 25 [''+''] False left_binary_op empty_rule_map)) ''+''
       = Some (raise_null_error, 0)"
proof -
  let ?rm = "register_left 25 [''+''] False left_binary_op empty_rule_map"
  have 1: "dom (null_rules sample_rules) = dom (left_rules sample_rules)"
    unfolding sample_rules_def using rule_map_total by blast
  have 2: "left_rules (register_null (- 1) [''x''] null_constant ?rm) ''x''
       = Some (raise_left_error, 0, 0)"
    using rule_map_total [of _ "''x''" "[''x'']" ?rm "- 1" null_constant] left_rules_example(2)
    by simp
  have 3: "left_rules (register_null 31 [''+''] null_constant ?rm) ''+''
       = Some (left_binary_op, 25, 25)"
    using rule_map_total [of _ "''+''" "[''+'']" ?rm 31 null_constant] left_rules_example(1)
    by simp
  have 4: "null_rules (register_left 25 [''-''] False left_binary_op empty_rule_map) ''-''
       = Some (raise_null_error, 0)"
    using rule_map_total [of _ "''-''" "[''-'']" empty_rule_map 25 _ False left_binary_op]
      left_rules_example(4)
    by simp
  have 5: "null_rules (register_left 27 [''+''] False left_binary_op ?rm) ''+''
       = Some (raise_null_error, 0)"
    using rule_map_total [of _ "''+''" "[''+'']" ?rm 27 _ False left_binary_op]
      left_rules_example(3)
    by simp
  from 1 2 3 4 5 show ?thesis by blast
qed

text \<open>
  Claim C7, as amended. For a token type other than \<^verbatim>\<open>eof\<close> that the grammar lists
  in some \<^verbatim>\<open>register_left\<close> and in no \<^verbatim>\<open>register_null\<close>, a call of \<^verbatim>\<open>parse\<close> while
  the current token has that type raises the \<^verbatim>\<open>ParseError\<close> whose message is the
  token followed by \<^verbatim>\<open>can't be used in prefix position\<close>, whatever the binding power
  and however small the bound on the depth of calls.
\<close>

theorem left_only_prefix_error:
  assumes "t \<in> set (concat (map left_types regs))" "t \<notin> set (concat (map null_types regs))"
    and "type (current token_stream) = t" "t \<noteq> type EOF_TOKEN"
  shows "parse (Suc n) (build regs) token_stream rbp
           = Some (Inl (ParseError (repr_token (current token_stream)
                          @ '' can't be used in prefix position'')))
         \<and> str_contains ''can't be used in prefix position''
             (repr_token (current token_stream) @ '' can't be used in prefix position'')"
proof
  from build_left_only [OF assms(1,2)] assms(3,4)
  show "parse (Suc n) (build regs) token_stream rbp
           = Some (Inl (ParseError (repr_token (current token_stream)
                          @ '' can't be used in prefix position'')))"
    by (simp add: raise_null_error_def)
  have "str_contains ''can't be used in prefix position''
      ((repr_token (current token_stream) @ '' '') @ ''can't be used in prefix position'' @ [])"
    by (rule str_contains_append)
  then show "str_contains ''can't be used in prefix position''
      (repr_token (current token_stream) @ '' can't be used in prefix position'')"
    by simp
qed

lemma percent_stream:
  "TokenStream ''%'' = Inr \<lparr>current = Token ''%'' (StrVal ''%'') (Some (0, 0)), pending = [],
      locals = Some (''%'', StrVal ''%''), exhausted = False\<rparr>"
  by code_simp

theorem left_only_prefix_error_witness:
  "TokenStream ''%'' = Inr \<lparr>current = Token ''%'' (StrVal ''%'') (Some (0, 0)), pending = [],
      locals = Some (''%'', StrVal ''%''), exhausted = False\<rparr>
   \<and> parse (Suc 0) sample_rules
        \<lparr>current = Token ''%'' (StrVal ''%'') (Some (0, 0)), pending = [],
         locals = Some (''%'', StrVal ''%''), exhausted = False\<rparr> 0
       = Some (Inl (ParseError ''<Token % %> can't be used in prefix position''))
   \<and> str_contains ''can't be used in prefix position''
        ''<Token % %> can't be used in prefix position''"
proof -
  let ?st = "\<lparr>current = Token ''%'' (StrVal ''%'') (Some (0, 0)), pending = [],
      locals = Some (''%'', StrVal ''%''), exhausted = False\<rparr>"
  let ?regs = "[RegisterNull (- 1) [''name'', ''number''] null_constant,
            RegisterLeft 25 [''+''] False left_binary_op,
            RegisterLeft 27 [''%''] False left_binary_op,
            RegisterLeft 29 [''**''] True left_binary_op,
            RegisterNull (- 1) [''eof''] raise_null_error]"
  have r: "repr_token (current ?st) = ''<Token % %>''"
    by (simp add: repr_token_def Token_def str_of_val_def)
  have h: "''%'' \<in> set (concat (map left_types ?regs))"
    "''%'' \<notin> set (concat (map null_types ?regs))"
    "type (current ?st) = ''%''" "''%'' \<noteq> type EOF_TOKEN"
    by (simp_all add: Token_def EOF_TOKEN_def)
  from left_only_prefix_error [OF h, of 0 0] r percent_stream show ?thesis
    by (simp add: sample_rules_def)
qed

text \<open>
  Claim C7 as stated covers every token type. For the type \<^verbatim>\<open>eof\<close>, registered by
  \<^verbatim>\<open>register_left\<close> only, \<^verbatim>\<open>parse\<close> on the stream of the empty text meets its first
  check and raises \<^verbatim>\<open>Unexpected end of input\<close>, which does not contain the words of
  the claim.
\<close>

theorem eof_left_only_counterexample:
  "''eof'' \<in> set (concat (map left_types [RegisterLeft 5 [''eof''] False left_binary_op]))
   \<and> ''eof'' \<notin> set (concat (map null_types [RegisterLeft 5 [''eof''] False left_binary_op]))
   \<and> TokenStream '''' = Inr \<lparr>current = EOF_TOKEN, pending = [], locals = None, exhausted = True\<rparr>
   \<and> type (current \<lparr>current = EOF_TOKEN, pending = [], locals = None, exhausted = True\<rparr>) = ''eof''
   \<and> parse (Suc 0) (build [RegisterLeft 5 [''eof''] False left_binary_op])
        \<lparr>current = EOF_TOKEN, pending = [], locals = None, exhausted = True\<rparr> 0
       = Some (Inl (ParseError ''Unexpected end of input''))
   \<and> \<not> str_contains ''can't be used in prefix position'' ''Unexpected end of input''"
proof -
  have 1: "TokenStream '''' = Inr \<lparr>current = EOF_TOKEN, pending = [], locals = None, exhausted = True\<rparr>"
    by code_simp
  have 2: "\<not> str_contains ''can't be used in prefix position'' ''Unexpected end of input''"
    by simp
  from 1 2 show ?thesis by (simp add: EOF_TOKEN_def Token_def)
qed

section \<open>Handlers that consume tokens\<close>

lemma advance_shorter: "advance ts = (Inr t, ts') \<Longrightarrow> remaining ts' < remaining ts"
  by (auto simp: advance_def remaining_def split: if_splits list.splits option.splits)

lemma returns_below_simps [simp]:
  "returns_below k None = False"
  "returns_below k (Some (Inl e)) = True"
  "returns_below k (Some (Inr (nd, ts))) = (remaining ts < k)"
  by (simp_all add: returns_below_def)

lemma returns_below_mono: "returns_below k r \<Longrightarrow> k \<le> k' \<Longrightarrow> returns_below k' r"
  by (auto simp: returns_below_def split: option.splits sum.splits)

lemma parser_below_mono: "parser_below k p \<Longrightarrow> k' \<le> k \<Longrightarrow> parser_below k' p"
  by (simp add: parser_below_def)

lemma consuming_raise_null_error: "consuming_nud raise_null_error"
  by (simp add: consuming_nud_def raise_null_error_def)

lemma consuming_raise_left_error: "consuming_led raise_left_error"
  by (simp add: consuming_led_def raise_left_error_def)

lemma consuming_null_constant: "consuming_nud null_constant"
proof -
  have "returns_below (remaining ts) (null_constant p ts bp)" for p ts bp
  proof (cases "advance ts")
    case (Pair r st)
    then show ?thesis
      by (cases r) (simp_all add: null_constant_def advance_shorter)
  qed
  then show ?thesis by (simp add: consuming_nud_def)
qed

lemma consuming_left_binary_op: "consuming_led left_binary_op"
proof -
  have "returns_below (remaining ts) (left_binary_op p ts bp nd)"
    if p: "parser_below (remaining ts) p" for p ts bp nd
  proof (cases "advance ts")
    case (Pair r st)
    show ?thesis
    proof (cases r)
      case (Inl e)
      with Pair show ?thesis by (simp add: left_binary_op_def)
    next
      case (Inr tok)
      with Pair have s: "remaining st < remaining ts" by (simp add: advance_shorter)
      with p have b: "returns_below (remaining st) (p st bp)" by (simp add: parser_below_def)
      show ?thesis
      proof (cases "p st bp")
        case None
        with b show ?thesis by simp
      next
        case (Some res)
        show ?thesis
        proof (cases res)
          case (Inl e)
          with Some Pair Inr show ?thesis by (simp add: left_binary_op_def)
        next
          case (Inr pr)
          obtain right st' where pr: "pr = (right, st')" by (cases pr)
          with b Some Inr have "remaining st' < remaining st" by simp
          with s have "remaining st' < remaining ts" by simp
          with Some Pair \<open>r = Inr tok\<close> Inr pr show ?thesis by (simp add: left_binary_op_def)
        qed
      qed
    qed
  qed
  then show ?thesis by (simp add: consuming_led_def)
qed

lemma consuming_register:
  assumes "consuming_rules rm" "consuming_registration r"
  shows "consuming_rules (register r rm)"
proof (cases r)
  case (RegisterNull bp ts f)
  with assms(2) have f: "consuming_nud f" by simp
  show ?thesis
    unfolding consuming_rules_def RegisterNull register.simps
    using assms(1) f consuming_raise_left_error
    by (auto simp: register_null_rules consuming_rules_def split: if_splits)
next
  case (RegisterLeft bp ts a f)
  with assms(2) have f: "consuming_led f" by simp
  show ?thesis
    unfolding consuming_rules_def RegisterLeft register.simps
    using assms(1) f consuming_raise_null_error
    by (auto simp: register_left_rules consuming_rules_def split: if_splits)
qed

lemma consuming_fold_register:
  "consuming_rules rm \<Longrightarrow> list_all consuming_registration regs \<Longrightarrow>
   consuming_rules (fold register regs rm)"
  by (induction regs arbitrary: rm) (simp_all add: consuming_register)

lemma consuming_build: "list_all consuming_registration regs \<Longrightarrow> consuming_rules (build regs)"
  unfolding build_def
  by (rule consuming_fold_register) (simp_all add: consuming_rules_def empty_rule_map_def)

lemma consuming_rules_left:
  "consuming_rules rm \<Longrightarrow> left_rules rm t = Some (h, lbp, rbp) \<Longrightarrow> consuming_led h"
  unfolding consuming_rules_def by blast

lemma consuming_rules_null:
  "consuming_rules rm \<Longrightarrow> null_rules rm t = Some (h, bp) \<Longrightarrow> consuming_nud h"
  unfolding consuming_rules_def by blast

lemma parse_loop_returns:
  assumes "consuming_rules rm"
  shows "parser_below (remaining ts) p \<Longrightarrow> remaining ts < n \<Longrightarrow>
         returns_below (Suc (remaining ts)) (parse_loop n rm p rbp nd ts)"
proof (induction n arbitrary: ts nd)
  case 0
  then show ?case by simp
next
  case (Suc n)
  show ?case
  proof (cases "left_rules rm (type (current ts))")
    case None
    then show ?thesis by simp
  next
    case (Some entry)
    obtain led lbp rbp' where entry: "entry = (led, lbp, rbp')" by (cases entry)
    show ?thesis
    proof (cases "rbp \<ge> lbp")
      case True
      with Some entry show ?thesis by simp
    next
      case False
      from Some entry have "left_rules rm (type (current ts)) = Some (led, lbp, rbp')" by simp
      with assms have "consuming_led led" by (rule consuming_rules_left)
      with Suc.prems(1) have b: "returns_below (remaining ts) (led p ts rbp' nd)"
        by (simp add: consuming_led_def)
      show ?thesis
      proof (cases "led p ts rbp' nd")
        case None
        with b show ?thesis by simp
      next
        case (Some res)
        note led = this
        show ?thesis
        proof (cases res)
          case (Inl e)
          with led \<open>left_rules rm (type (current ts)) = Some entry\<close> entry False
          show ?thesis by simp
        next
          case (Inr pr)
          obtain nd' ts' where pr: "pr = (nd', ts')" by (cases pr)
          with b led Inr have s: "remaining ts' < remaining ts" by simp
          have "parser_below (remaining ts') p"
            using Suc.prems(1) s by (simp add: parser_below_mono)
          moreover have "remaining ts' < n" using s Suc.prems(2) by simp
          ultimately have "returns_below (Suc (remaining ts')) (parse_loop n rm p rbp nd' ts')"
            by (rule Suc.IH)
          then have "returns_below (Suc (remaining ts)) (parse_loop n rm p rbp nd' ts')"
            using s by (simp add: returns_below_mono)
          with led \<open>left_rules rm (type (current ts)) = Some entry\<close> entry False Inr pr
          show ?thesis by simp
        qed
      qed
    qed
  qed
qed

lemma parse_returns:
  assumes "consuming_rules rm"
  shows "remaining ts < n \<Longrightarrow> returns_below (remaining ts) (parse n rm ts rbp)"
proof (induction n arbitrary: ts rbp)
  case 0
  then show ?case by simp
next
  case (Suc n)
  have below: "parser_below (remaining ts) (parse n rm)"
    unfolding parser_below_def
  proof (intro allI impI)
    fix ts' bp assume "remaining ts' < remaining ts"
    with Suc.prems have "remaining ts' < n" by simp
    then show "returns_below (remaining ts') (parse n rm ts' bp)" by (rule Suc.IH)
  qed
  show ?case
  proof (cases "type (current ts) = type EOF_TOKEN")
    case True
    then show ?thesis by simp
  next
    case False
    note not_eof = this
    show ?thesis
    proof (cases "null_rules rm (type (current ts))")
      case None
      with not_eof show ?thesis by simp
    next
      case (Some entry)
      note entry_def = this
      obtain nud bp where entry: "entry = (nud, bp)" by (cases entry)
      from Some entry have "null_rules rm (type (current ts)) = Some (nud, bp)" by simp
      with assms have "consuming_nud nud" by (rule consuming_rules_null)
      with below have b: "returns_below (remaining ts) (nud (parse n rm) ts bp)"
        by (simp add: consuming_nud_def)
      show ?thesis
      proof (cases "nud (parse n rm) ts bp")
        case None
        with b show ?thesis by simp
      next
        case (Some res)
        note nud = this
        show ?thesis
        proof (cases res)
          case (Inl e)
          with nud entry_def entry not_eof show ?thesis by simp
        next
          case (Inr pr)
          obtain nd ts' where pr: "pr = (nd, ts')" by (cases pr)
          with b nud Inr have s: "remaining ts' < remaining ts" by simp
          have "parser_below (remaining ts') (parse n rm)"
            using below s by (simp add: parser_below_mono)
          moreover have "remaining ts' < n" using s Suc.prems by simp
          ultimately have
            "returns_below (Suc (remaining ts')) (parse_loop n rm (parse n rm) rbp nd ts')"
            by (rule parse_loop_returns [OF assms])
          then have "returns_below (remaining ts) (parse_loop n rm (parse n rm) rbp nd ts')"
            using s by (simp add: returns_below_mono)
          with nud entry_def entry not_eof Inr pr show ?thesis by simp
        qed
      qed
    qed
  qed
qed

section \<open>The claims on \<^verbatim>\<open>parse\<close>\<close>

text \<open>
  Claim C1. Once the prefix handler has returned the left operand, \<^verbatim>\<open>parse\<close> is its
  loop from that operand and the stream the handler left. An iteration looks up the
  infix entry \<open>(led, lbp, rbp')\<close> of the current token: when \<open>rbp \<ge> lbp\<close> the call
  returns the left operand and the stream as they are, so the token is not consumed;
  otherwise it calls \<open>led\<close> with the stream, \<open>rbp'\<close> and the left operand, and the
  node and stream that \<open>led\<close> returns are the ones of the next iteration, or the
  exception it raises is the one of the call.
\<close>

theorem parse_loop_iteration:
  "(type (current ts0) \<noteq> type EOF_TOKEN \<and> null_rules rm (type (current ts0)) = Some (nud, bp)
      \<and> nud (parse n rm) ts0 bp = Some (Inr (nd, ts)) \<longrightarrow>
      parse (Suc n) rm ts0 rbp = parse_loop n rm (parse n rm) rbp nd ts)
   \<and> (left_rules rm (type (current ts)) = Some (led, lbp, rbp') \<and> rbp \<ge> lbp \<longrightarrow>
        parse_loop (Suc m) rm p rbp nd ts = Some (Inr (nd, ts)))
   \<and> (left_rules rm (type (current ts)) = Some (led, lbp, rbp') \<and> \<not> rbp \<ge> lbp
        \<and> led p ts rbp' nd = Some (Inr (nd', ts')) \<longrightarrow>
        parse_loop (Suc m) rm p rbp nd ts = parse_loop m rm p rbp nd' ts')
   \<and> (left_rules rm (type (current ts)) = Some (led, lbp, rbp') \<and> \<not> rbp \<ge> lbp
        \<and> led p ts rbp' nd = Some (Inl e) \<longrightarrow>
        parse_loop (Suc m) rm p rbp nd ts = Some (Inl e))"
  by simp

lemma sample_entries:
  "null_rules sample_rules ''number'' = Some (null_constant, - 1)"
  "left_rules sample_rules ''+'' = Some (left_binary_op, 25, 25)"
  "left_rules sample_rules ''eof'' = Some (raise_left_error, 0, 0)"
  "left_rules sample_rules ''name'' = Some (raise_left_error, 0, 0)"
  by (simp_all add: sample_rules_def build_def register_null_rules register_left_rules
        empty_rule_map_def)

lemma one_plus_two_stream: "TokenStream ''1+2'' = Inr one_plus_two"
  unfolding one_plus_two_def by code_simp

lemma sample_steps:
  "null_constant (parse 2 sample_rules) one_plus_two (- 1)
     = Some (Inr (Node (Token ''number'' (IntVal 1) (Some (0, 0))) [], plus_two))"
  "left_binary_op (parse 2 sample_rules) plus_two 25
       (Node (Token ''number'' (IntVal 1) (Some (0, 0))) [])
     = Some (Inr (Node (Token ''+'' (StrVal ''+'') (Some (0, 0)))
                    [Node (Token ''number'' (IntVal 1) (Some (0, 0))) [],
                     Node (Token ''number'' (IntVal 2) (Some (0, 0))) []], at_end))"
  unfolding one_plus_two_def plus_two_def at_end_def by code_simp+

theorem parse_loop_iteration_witness:
  "TokenStream ''1+2'' = Inr one_plus_two
   \<and> parse 3 sample_rules one_plus_two 0
       = Some (Inr (Node (Token ''+'' (StrVal ''+'') (Some (0, 0)))
                      [Node (Token ''number'' (IntVal 1) (Some (0, 0))) [],
                       Node (Token ''number'' (IntVal 2) (Some (0, 0))) []], at_end))"
proof -
  let ?n1 = "Node (Token ''number'' (IntVal 1) (Some (0, 0))) []"
  let ?n = "Node (Token ''+'' (StrVal ''+'') (Some (0, 0)))
              [?n1, Node (Token ''number'' (IntVal 2) (Some (0, 0))) []]"
  have t: "type (current one_plus_two) = ''number''" "type (current plus_two) = ''+''"
    "type (current at_end) = ''eof''" "type EOF_TOKEN = ''eof''"
    by (simp_all add: one_plus_two_def plus_two_def at_end_def Token_def EOF_TOKEN_def)
  have 1: "parse (Suc 2) sample_rules one_plus_two 0
             = parse_loop 2 sample_rules (parse 2 sample_rules) 0 ?n1 plus_two"
    using parse_loop_iteration [of one_plus_two sample_rules null_constant "- 1" 2 ?n1 plus_two 0]
      t sample_entries(1) sample_steps(1)
    by simp
  have 2: "parse_loop (Suc 1) sample_rules (parse 2 sample_rules) 0 ?n1 plus_two
             = parse_loop 1 sample_rules (parse 2 sample_rules) 0 ?n at_end"
    using parse_loop_iteration [of _ sample_rules _ _ _ ?n1 plus_two 0 left_binary_op 25 25 1
        "parse 2 sample_rules" ?n at_end]
      t sample_entries(2) sample_steps(2)
    by simp
  have 3: "parse_loop (Suc 0) sample_rules (parse 2 sample_rules) 0 ?n at_end
             = Some (Inr (?n, at_end))"
    using parse_loop_iteration [of _ sample_rules _ _ _ ?n at_end 0 raise_left_error 0 0 0
        "parse 2 sample_rules"]
      t sample_entries(3)
    by simp
  have "parse 3 sample_rules one_plus_two 0 = Some (Inr (?n, at_end))"
    using 1 2 3 by (simp add: numeral_3_eq_3 numeral_2_eq_2)
  with one_plus_two_stream show ?thesis by simp
qed

text \<open>
  Claim C9, as amended. A token type that the grammar lists in some \<^verbatim>\<open>register_null\<close> and in no
  \<^verbatim>\<open>register_left\<close> has the infix entry \<^verbatim>\<open>(raise_left_error, 0, 0)\<close>. When the loop
  of a call of \<^verbatim>\<open>parse\<close> with \<open>0 \<le> rbp\<close> meets a token of that type, it returns the
  left operand and the stream untouched, so the placeholder is not invoked (any handler
  registered with left binding power 0 would not be either); with \<open>rbp < 0\<close> the loop
  invokes it and the call raises \<^verbatim>\<open>... can't be used in infix position\<close>,
  whoever made the call.
\<close>

theorem placeholder_not_invoked:
  assumes "t \<in> set (concat (map null_types regs))" "t \<notin> set (concat (map left_types regs))"
    and "type (current ts) = t"
  shows "left_rules (build regs) t = Some (raise_left_error, 0, 0)
         \<and> (0 \<le> rbp \<longrightarrow> parse_loop (Suc n) (build regs) p rbp nd ts = Some (Inr (nd, ts)))
         \<and> (rbp < 0 \<longrightarrow>
              parse_loop (Suc n) (build regs) p rbp nd ts
                = Some (Inl (ParseError (repr_token (current ts)
                               @ '' can't be used in infix position''))))
         \<and> (0 \<le> rbp \<and> left_rules rm (type (current ts)) = Some (h, 0, r) \<longrightarrow>
              parse_loop (Suc n) rm p rbp nd ts = Some (Inr (nd, ts)))"
proof -
  from build_null_only [OF assms(1,2)]
  have e: "left_rules (build regs) t = Some (raise_left_error, 0, 0)" .
  with assms(3) show ?thesis by (simp add: raise_left_error_def)
qed

theorem placeholder_not_invoked_witness:
  "left_rules sample_rules ''name'' = Some (raise_left_error, 0, 0)
   \<and> parse_loop (Suc 0) sample_rules (parse 0 sample_rules) 0
        (Node (Token ''number'' (IntVal 1) (Some (0, 0))) []) one_x
       = Some (Inr (Node (Token ''number'' (IntVal 1) (Some (0, 0))) [], one_x))
   \<and> parse_loop (Suc 0) sample_rules (parse 0 sample_rules) (- 1)
        (Node (Token ''number'' (IntVal 1) (Some (0, 0))) []) one_x
       = Some (Inl (ParseError ''<Token name x> can't be used in infix position''))"
proof -
  let ?regs = "[RegisterNull (- 1) [''name'', ''number''] null_constant,
            RegisterLeft 25 [''+''] False left_binary_op,
            RegisterLeft 27 [''%''] False left_binary_op,
            RegisterLeft 29 [''**''] True left_binary_op,
            RegisterNull (- 1) [''eof''] raise_null_error]"
  let ?n1 = "Node (Token ''number'' (IntVal 1) (Some (0, 0))) []"
  have h: "''name'' \<in> set (concat (map null_types ?regs))"
    "''name'' \<notin> set (concat (map left_types ?regs))"
    "type (current one_x) = ''name''"
    by (simp_all add: one_x_def Token_def)
  have r: "repr_token (current one_x) = ''<Token name x>''"
    by (simp add: one_x_def repr_token_def Token_def str_of_val_def)
  from placeholder_not_invoked [OF h, of 0 0 "parse 0 sample_rules" ?n1]
    placeholder_not_invoked [OF h, of "- 1" 0 "parse 0 sample_rules" ?n1] r
  show ?thesis by (simp add: sample_rules_def)
qed

text \<open>
  Claim C9 as stated says that the message is reachable only from a recursive call of
  \<^verbatim>\<open>parse\<close> with a negative binding power. The call of \<^verbatim>\<open>parse\<close> on the stream just
  built from the text \<^verbatim>\<open>1 x\<close>, with \<^verbatim>\<open>rbp = -1\<close>, is made by no handler, and it
  raises the message.
\<close>

theorem top_level_negative_counterexample:
  "TokenStream ''1 x'' = Inr one_then_x
   \<and> left_rules sample_rules ''name'' = Some (raise_left_error, 0, 0)
   \<and> parse (Suc (Suc 0)) sample_rules one_then_x (- 1)
       = Some (Inl (ParseError ''<Token name x> can't be used in infix position''))"
proof -
  have 1: "TokenStream ''1 x'' = Inr one_then_x"
    unfolding one_then_x_def by code_simp
  have 2: "null_constant (parse (Suc 0) sample_rules) one_then_x (- 1)
       = Some (Inr (Node (Token ''number'' (IntVal 1) (Some (0, 0))) [], one_x))"
    by (simp add: null_constant_def advance_def one_then_x_def one_x_def assign_def)
  have 3: "type (current one_then_x) = ''number''" "type EOF_TOKEN = ''eof''"
    "type (current one_x) = ''name''" "repr_token (current one_x) = ''<Token name x>''"
    by (simp_all add: one_then_x_def one_x_def EOF_TOKEN_def Token_def repr_token_def
          str_of_val_def)
  have "parse (Suc (Suc 0)) sample_rules one_then_x (- 1)
       = Some (Inl (ParseError ''<Token name x> can't be used in infix position''))"
    using 2 3 sample_entries(1,4) by (simp add: raise_left_error_def)
  with 1 sample_entries(4) show ?thesis by simp
qed

text \<open>
  Claim C4, as amended. When every handler of the table consumes at least one token per
  invocation, a call of \<^verbatim>\<open>parse\<close> returns: every bound on the depth of calls and on
  the iterations above the number of tokens the stream can still yield gives a result,
  a raised exception or a node with a stream that has become shorter. When the loop
  meets the eof sentinel it ends there: with no infix entry for \<^verbatim>\<open>eof\<close> the
  membership check fails and the call raises \<^verbatim>\<open>Unexpected token\<close>; with an entry
  whose left binding power is at most \<open>rbp\<close> the call returns its left operand.
\<close>

theorem parse_terminates:
  assumes "consuming_rules rm" "remaining ts < n"
  shows "(\<exists>r. parse n rm ts rbp = Some r)
         \<and> (\<forall>nd ts'. parse n rm ts rbp = Some (Inr (nd, ts')) \<longrightarrow> remaining ts' < remaining ts)
         \<and> (type (current ts1) = type EOF_TOKEN \<and> left_rules rm (type EOF_TOKEN) = None \<longrightarrow>
              parse_loop (Suc m) rm p rbp nd1 ts1
                = Some (Inl (ParseError (''Unexpected token '' @ repr_token (current ts1)))))
         \<and> (type (current ts1) = type EOF_TOKEN
              \<and> left_rules rm (type EOF_TOKEN) = Some (led, lbp, rbp') \<and> rbp \<ge> lbp \<longrightarrow>
              parse_loop (Suc m) rm p rbp nd1 ts1 = Some (Inr (nd1, ts1)))"
proof (intro conjI allI impI)
  from parse_returns [OF assms, of rbp]
  have b: "returns_below (remaining ts) (parse n rm ts rbp)" .
  then show "\<exists>r. parse n rm ts rbp = Some r"
    by (cases "parse n rm ts rbp") simp_all
  fix nd ts' assume "parse n rm ts rbp = Some (Inr (nd, ts'))"
  with b show "remaining ts' < remaining ts" by simp
next
  assume "type (current ts1) = type EOF_TOKEN \<and> left_rules rm (type EOF_TOKEN) = None"
  then show "parse_loop (Suc m) rm p rbp nd1 ts1
      = Some (Inl (ParseError (''Unexpected token '' @ repr_token (current ts1))))"
    by simp
next
  assume "type (current ts1) = type EOF_TOKEN
      \<and> left_rules rm (type EOF_TOKEN) = Some (led, lbp, rbp') \<and> rbp \<ge> lbp"
  then show "parse_loop (Suc m) rm p rbp nd1 ts1 = Some (Inr (nd1, ts1))"
    by simp
qed

lemma consuming_sample_rules: "consuming_rules sample_rules"
  unfolding sample_rules_def
  by (rule consuming_build)
    (simp add: consuming_null_constant consuming_left_binary_op consuming_raise_null_error)

lemma consuming_number_rules: "consuming_rules number_rules"
  unfolding number_rules_def
  by (rule consuming_build) (simp add: consuming_null_constant)

theorem parse_terminates_witness:
  "consuming_rules sample_rules \<and> remaining one_plus_two < 4
   \<and> (\<exists>r. parse 4 sample_rules one_plus_two 0 = Some r)
   \<and> parse_loop (Suc 0) sample_rules (parse 0 sample_rules) 0
        (Node (Token ''number'' (IntVal 1) (Some (0, 0))) []) at_end
       = Some (Inr (Node (Token ''number'' (IntVal 1) (Some (0, 0))) [], at_end))"
proof -
  have r: "remaining one_plus_two < 4" by (simp add: remaining_def one_plus_two_def)
  have t: "type (current at_end) = type EOF_TOKEN" "type EOF_TOKEN = ''eof''"
    by (simp_all add: at_end_def EOF_TOKEN_def Token_def)
  from parse_terminates [OF consuming_sample_rules r, of 0 at_end 0 "parse 0 sample_rules"
      "Node (Token ''number'' (IntVal 1) (Some (0, 0))) []" raise_left_error 0 0]
    t sample_entries(3) consuming_sample_rules r
  show ?thesis by simp
qed

text \<open>
  Claim C4 as stated says that the eof sentinel fails the membership check of the loop
  and that this makes the call return its left operand. With a table that registers
  numbers only, all of whose handlers consume a token, the text \<^verbatim>\<open>1\<close> gives the
  left operand \<^verbatim>\<open>1\<close>, then the sentinel, which has no infix entry: the call raises
  \<^verbatim>\<open>Unexpected token\<close> and returns no operand.
\<close>

theorem eof_membership_counterexample:
  "consuming_rules number_rules
   \<and> TokenStream ''1'' = Inr one
   \<and> null_constant (parse (Suc 0) number_rules) one (- 1)
       = Some (Inr (Node (Token ''number'' (IntVal 1) (Some (0, 0))) [], after_one))
   \<and> current after_one = EOF_TOKEN
   \<and> left_rules number_rules (type EOF_TOKEN) = None
   \<and> parse (Suc (Suc 0)) number_rules one 0
       = Some (Inl (ParseError ''Unexpected token <Token eof eof>''))"
proof -
  have 1: "TokenStream ''1'' = Inr one" unfolding one_def by code_simp
  have 2: "null_constant (parse (Suc 0) number_rules) one (- 1)
       = Some (Inr (Node (Token ''number'' (IntVal 1) (Some (0, 0))) [], after_one))"
    by (simp add: null_constant_def advance_def one_def after_one_def)
  have 3: "left_rules number_rules (type EOF_TOKEN) = None"
    by (simp add: number_rules_def build_def register_null_rules empty_rule_map_def
          EOF_TOKEN_def Token_def)
  have 4: "null_rules number_rules ''number'' = Some (null_constant, - 1)"
    by (simp add: number_rules_def build_def register_null_rules)
  have 5: "type (current one) = ''number''" "type EOF_TOKEN = ''eof''"
    "type (current after_one) = ''eof''"
    "repr_token (current after_one) = ''<Token eof eof>''"
    by (simp_all add: one_def after_one_def EOF_TOKEN_def Token_def repr_token_def str_of_val_def)
  have 6: "parse (Suc (Suc 0)) number_rules one 0
       = Some (Inl (ParseError ''Unexpected token <Token eof eof>''))"
    using 2 3 4 5 by simp
  from 1 2 3 6 consuming_number_rules show ?thesis by (simp add: after_one_def)
qed

end
